theory Spec2Isabelle
  imports Main "HOL-Library.AList"
begin

section \<open>process-watcher: the script \<open>process_watcher.py\<close>\<close>

text \<open>
  The script watches operating-system processes and calls every loaded communication
  module when one of them ends.  It is a straight-line program around one
  \<^verbatim>\<open>while True\<close> loop; the model follows it line by line.

  \<^item> The parsed command line (\<^verbatim>\<open>args\<close>) is a record.
  \<^item> Everything the script asks of its surroundings is a field of the record \<open>world\<close>:
    whether a communication module imports, whether a pattern compiles, what the operating
    system answers when a handle is created, which PIDs the pattern matcher yields, what
    \<^verbatim>\<open>check()\<close> returns and whether a \<^verbatim>\<open>send\<close> returns or raises.  The answers are
    indexed by the tick in which the question is asked (0 is start-up).  Within one tick
    the script asks each question at most once per PID, handle and module, so that
    indexing loses no behaviour.
  \<^item> What the script does to its surroundings is a list of events: lines on standard
    output, lines of the log, and calls of \<^verbatim>\<open>send\<close>.
  \<^item> \<^verbatim>\<open>sys.exit\<close> and an exception that nothing catches end the run; both are
    values of the type \<open>flow\<close>.
  \<^item> The loop takes a number of ticks to run; a run that has not ended after that many
    ticks returns its state.

  The length of the sleep between ticks and an interrupt from the keyboard are outside
  the model: it has no clock and no signals.
\<close>

subsection \<open>Data\<close>

text \<open>
  Modelled from the spec: the class \<^verbatim>\<open>ProcessByPID\<close> of the module \<^verbatim>\<open>process\<close>, which is
  not among the sources.  The spec's ProcessSnapshot is
  \<open>{identity, command_line, start_time, process_name}\<close>, captured once when the handle is
  created, and a handle owns one snapshot.
\<close>

record process =
  identity :: int
  command_line :: string
  start_time :: nat
  process_name :: string

text \<open>An entry of \<^verbatim>\<open>comms\<close>: the module and the keyword arguments of its \<^verbatim>\<open>send\<close>.\<close>

datatype comm = Email "string list" | Dbus_notify

text \<open>The exceptions that can leave the script uncaught.\<close>

datatype exn =
    NoProcessFound int
  | KeyError int
  | SendError comm
  | RegexError string

text \<open>What a line of standard output says.\<close>

datatype message =
    No_arguments_help
  | No_process_with_PID int
  | No_processes_found
  | Watching nat
  | Info process
  | Process_stopped

text \<open>What a line of the log says.\<close>

datatype logline =
    Failed_to_load_email
  | Notify2_not_installed
  | Failed_to_load_dbus_notify

datatype event = Stdout message | Logged logline | Send comm process

text \<open>
  The outcome of \<^verbatim>\<open>import m\<close>: the module loads, an \<^verbatim>\<open>ImportError\<close> with its
  \<^verbatim>\<open>name\<close> attribute, or any other exception.
\<close>

datatype import_result = Imported | ImportError "string option" | OtherError

record args =
  pid :: "int list"
  command :: "string list"
  watch_new :: bool
  to :: "string list option"
  notify :: bool
  quiet :: bool

record world =
  import_email :: import_result
  import_dbus_notify :: import_result
  regex_ok :: "string \<Rightarrow> bool"
  os_process :: "nat \<Rightarrow> int \<Rightarrow> (string \<times> nat \<times> string) option"
  os_matching :: "nat \<Rightarrow> string list \<Rightarrow> int list"
  os_running :: "nat \<Rightarrow> process \<Rightarrow> bool"
  send_ok :: "nat \<Rightarrow> comm \<Rightarrow> process \<Rightarrow> bool"

text \<open>
  How a piece of the script ends: it falls through to the next statement with a value,
  it calls \<^verbatim>\<open>sys.exit\<close> with a status, or it raises an exception that nothing catches.
\<close>

datatype 'a flow = Next 'a | Exit nat | Uncaught exn

type_synonym 'a io = "event list \<times> 'a flow"

fun and_then :: "'a io \<Rightarrow> ('a \<Rightarrow> 'b io) \<Rightarrow> 'b io" where
  "and_then (es, Next x) f = (case f x of (es', r) \<Rightarrow> (es @ es', r))"
| "and_then (es, Exit n) f = (es, Exit n)"
| "and_then (es, Uncaught e) f = (es, Uncaught e)"

text \<open>
  The dictionary \<^verbatim>\<open>processes\<close>, in insertion order (the order in which Python iterates
  it).  \<^verbatim>\<open>processes[pid] = p\<close> is \<open>AList.update pid p\<close>: an existing key keeps its
  place, a new key goes to the end.
\<close>

type_synonym watch = "(int \<times> process) list"

record state =
  processes :: watch
  to_delete :: "int list"

subsection \<open>The collaborators\<close>

text \<open>Line 48: \<^verbatim>\<open>print\<close> does nothing when \<^verbatim>\<open>--quiet\<close> is given.\<close>

definition print :: "bool \<Rightarrow> message \<Rightarrow> event list" where
  "print q m = (if q then [] else [Stdout m])"

text \<open>
  Modelled from the spec: the constructor \<^verbatim>\<open>ProcessByPID(pid)\<close> of the module
  \<^verbatim>\<open>process\<close>, which is not among the sources.  The spec's \<open>create(identity)\<close> looks the
  process up by identity and captures its snapshot, and fails with ProcessNotFound
  if no such process exists at call time.
\<close>

definition ProcessByPID :: "world \<Rightarrow> nat \<Rightarrow> int \<Rightarrow> exn + process" where
  "ProcessByPID w t p =
     (case os_process w t p of
        None \<Rightarrow> Inl (NoProcessFound p)
      | Some (cmd, started, name) \<Rightarrow>
          Inr \<lparr>identity = p, command_line = cmd, start_time = started, process_name = name\<rparr>)"

text \<open>
  \<^verbatim>\<open>pids_with_command_name(new_processes, *command_regexs)\<close> of the module \<^verbatim>\<open>process\<close>:
  the PIDs it yields are taken from the world.
\<close>

definition pids_with_command_name :: "world \<Rightarrow> nat \<Rightarrow> string list \<Rightarrow> int list" where
  "pids_with_command_name w t regexs = os_matching w t regexs"

text \<open>\<^verbatim>\<open>process.check()\<close>: whether the process is still running.\<close>

definition check :: "world \<Rightarrow> nat \<Rightarrow> process \<Rightarrow> bool" where
  "check w t p = os_running w t p"

text \<open>\<^verbatim>\<open>pid in processes\<close>.\<close>

definition contains :: "watch \<Rightarrow> int \<Rightarrow> bool" where
  "contains ps p = (p \<in> set (map fst ps))"

subsection \<open>Start-up\<close>

text \<open>Lines 55--61: the email module, required by \<^verbatim>\<open>--to\<close>.\<close>

definition load_email :: "world \<Rightarrow> args \<Rightarrow> comm list \<Rightarrow> comm list io" where
  "load_email w a comms =
     (case to a of
        None \<Rightarrow> ([], Next comms)
      | Some addrs \<Rightarrow>
          if addrs = [] then ([], Next comms)
          else (case import_email w of
                  Imported \<Rightarrow> ([], Next (comms @ [Email addrs]))
                | ImportError n \<Rightarrow> ([Logged Failed_to_load_email], Exit 1)
                | OtherError \<Rightarrow> ([Logged Failed_to_load_email], Exit 1)))"

text \<open>Lines 63--78: the desktop notification module, required by \<^verbatim>\<open>--notify\<close>.\<close>

definition load_dbus_notify :: "world \<Rightarrow> args \<Rightarrow> comm list \<Rightarrow> comm list io" where
  "load_dbus_notify w a comms =
     (if notify a then
        (case import_dbus_notify w of
           Imported \<Rightarrow> ([], Next (comms @ [Dbus_notify]))
         | ImportError n \<Rightarrow>
             if n = Some ''notify2'' then ([Logged Notify2_not_installed], Exit 1)
             else ([Logged Failed_to_load_dbus_notify], Exit 1)
         | OtherError \<Rightarrow> ([Logged Failed_to_load_dbus_notify], Exit 1))
      else ([], Next comms))"

text \<open>
  Lines 87--89 and again lines 98--100: the loop
  \<^verbatim>\<open>for pid in ...: if pid not in processes: processes[pid] = ProcessByPID(pid)\<close>.
  \<open>add_process\<close> is its body.
\<close>

definition add_process :: "world \<Rightarrow> nat \<Rightarrow> int \<Rightarrow> watch \<Rightarrow> exn + watch" where
  "add_process w t p ps =
     (if \<not> contains ps p then
        (case ProcessByPID w t p of
           Inl e \<Rightarrow> Inl e
         | Inr h \<Rightarrow> Inr (AList.update p h ps))
      else Inr ps)"

fun add_processes :: "world \<Rightarrow> nat \<Rightarrow> int list \<Rightarrow> watch \<Rightarrow> exn + watch" where
  "add_processes w t [] ps = Inr ps"
| "add_processes w t (p # rest) ps =
     (case add_process w t p ps of
        Inl e \<Rightarrow> Inl e
      | Inr ps' \<Rightarrow> add_processes w t rest ps')"

text \<open>
  Lines 86--93: the explicit PIDs, inside \<^verbatim>\<open>try ... except NoProcessFound\<close>.
\<close>

definition init_pids :: "world \<Rightarrow> args \<Rightarrow> watch \<Rightarrow> watch io" where
  "init_pids w a ps =
     (case add_processes w 0 (pid a) ps of
        Inr ps' \<Rightarrow> ([], Next ps')
      | Inl (NoProcessFound p) \<Rightarrow> (print (quiet a) (No_process_with_PID p), Exit 1)
      | Inl e \<Rightarrow> ([], Uncaught e))"

text \<open>
  Line 95: \<^verbatim>\<open>[re.compile(pat) for pat in args.command]\<close>; the first pattern that does not
  compile raises.  A compiled pattern is written as the pattern itself.
\<close>

fun compile_all :: "world \<Rightarrow> string list \<Rightarrow> exn + string list" where
  "compile_all w [] = Inr []"
| "compile_all w (pat # pats) =
     (if regex_ok w pat then
        (case compile_all w pats of Inl e \<Rightarrow> Inl e | Inr rs \<Rightarrow> Inr (pat # rs))
      else Inl (RegexError pat))"

text \<open>Lines 95--100: the processes that match a pattern; no exception is caught here.\<close>

definition init_commands :: "world \<Rightarrow> args \<Rightarrow> watch \<Rightarrow> (string list \<times> watch) io" where
  "init_commands w a ps =
     (case compile_all w (command a) of
        Inl e \<Rightarrow> ([], Uncaught e)
      | Inr command_regexs \<Rightarrow>
          if command_regexs \<noteq> [] then
            (case add_processes w 0 (pids_with_command_name w 0 command_regexs) ps of
               Inl e \<Rightarrow> ([], Uncaught e)
             | Inr ps' \<Rightarrow> ([], Next (command_regexs, ps')))
          else ([], Next (command_regexs, ps)))"

text \<open>Line 103: whether the program needs to look for new processes.\<close>

definition watch_new_effective :: "args \<Rightarrow> string list \<Rightarrow> bool" where
  "watch_new_effective a command_regexs = (watch_new a \<and> length command_regexs > 0)"

text \<open>Lines 105--111: nothing to watch, or the list of what is watched.\<close>

definition report_watching :: "bool \<Rightarrow> bool \<Rightarrow> watch \<Rightarrow> unit io" where
  "report_watching q wn ps =
     (if ps = [] \<and> \<not> wn then (print q No_processes_found, Exit 0)
      else (print q (Watching (length ps)) @ concat (map (\<lambda>(k, h). print q (Info h)) ps),
            Next ()))"

subsection \<open>The poll loop\<close>

text \<open>Lines 126--127: every entry of \<^verbatim>\<open>comms\<close> in turn; nothing catches what \<^verbatim>\<open>send\<close> raises.\<close>

fun send_all :: "world \<Rightarrow> nat \<Rightarrow> comm list \<Rightarrow> process \<Rightarrow> unit io" where
  "send_all w t [] h = ([], Next ())"
| "send_all w t (c # cs) h =
     (if send_ok w t c h then and_then ([Send c h], Next ()) (\<lambda>u. send_all w t cs h)
      else ([Send c h], Uncaught (SendError c)))"

text \<open>
  Lines 118--127: the scan of \<^verbatim>\<open>processes.items()\<close>.  The body changes \<^verbatim>\<open>to_delete\<close>
  only, so the scan walks the dictionary as it was when the scan began.
\<close>

fun scan :: "world \<Rightarrow> bool \<Rightarrow> comm list \<Rightarrow> nat \<Rightarrow> watch \<Rightarrow> int list \<Rightarrow> int list io" where
  "scan w q comms t [] td = ([], Next td)"
| "scan w q comms t ((k, h) # rest) td =
     (if \<not> check w t h then
        and_then (print q Process_stopped @ print q (Info h), Next ())
          (\<lambda>u. and_then (send_all w t comms h)
            (\<lambda>u. scan w q comms t rest (td @ [k])))
      else scan w q comms t rest td)"

text \<open>Lines 130--131: \<^verbatim>\<open>del processes[pid]\<close> raises \<^verbatim>\<open>KeyError\<close> for a key that is absent.\<close>

fun delete_all :: "int list \<Rightarrow> watch \<Rightarrow> exn + watch" where
  "delete_all [] ps = Inr ps"
| "delete_all (p # rest) ps =
     (if contains ps p then delete_all rest (AList.delete p ps) else Inl (KeyError p))"

text \<open>Lines 129--133.\<close>

definition apply_deletions :: "watch \<Rightarrow> int list \<Rightarrow> state io" where
  "apply_deletions ps td =
     (if td \<noteq> [] then
        (case delete_all td ps of
           Inl e \<Rightarrow> ([], Uncaught e)
         | Inr ps' \<Rightarrow> ([], Next \<lparr>processes = ps', to_delete = []\<rparr>))
      else ([], Next \<lparr>processes = ps, to_delete = td\<rparr>))"

text \<open>Lines 136--139: the new processes that match a pattern; each one is printed.\<close>

fun discover :: "world \<Rightarrow> bool \<Rightarrow> nat \<Rightarrow> int list \<Rightarrow> watch \<Rightarrow> watch io" where
  "discover w q t [] ps = ([], Next ps)"
| "discover w q t (p # rest) ps =
     (if \<not> contains ps p then
        (case ProcessByPID w t p of
           Inl e \<Rightarrow> ([], Uncaught e)
         | Inr h \<Rightarrow>
             and_then (print q (Info h), Next ())
               (\<lambda>u. discover w q t rest (AList.update p h ps)))
      else discover w q t rest ps)"

text \<open>Lines 135--142: look for new processes, or leave when nothing is left.\<close>

definition loop_tail :: "world \<Rightarrow> bool \<Rightarrow> bool \<Rightarrow> string list \<Rightarrow> nat \<Rightarrow> state \<Rightarrow> state io" where
  "loop_tail w q wn command_regexs t s =
     (if wn then
        and_then (discover w q t (pids_with_command_name w t command_regexs) (processes s))
          (\<lambda>ps'. ([], Next (s\<lparr>processes := ps'\<rparr>)))
      else if processes s = [] then ([], Exit 0)
      else ([], Next s))"

text \<open>Lines 116--133: the scan, and then the removals.\<close>

definition scan_and_remove :: "world \<Rightarrow> bool \<Rightarrow> comm list \<Rightarrow> nat \<Rightarrow> state \<Rightarrow> state io" where
  "scan_and_remove w q comms t s =
     and_then (scan w q comms t (processes s) (to_delete s))
       (\<lambda>td. apply_deletions (processes s) td)"

text \<open>Lines 116--142: one turn of the loop, the tick \<open>t\<close>.\<close>

definition tick :: "world \<Rightarrow> bool \<Rightarrow> comm list \<Rightarrow> bool \<Rightarrow> string list \<Rightarrow> nat \<Rightarrow> state \<Rightarrow> state io" where
  "tick w q comms wn command_regexs t s =
     and_then (scan_and_remove w q comms t s)
       (\<lambda>s'. loop_tail w q wn command_regexs t s')"

text \<open>
  Lines 115--142: \<^verbatim>\<open>while True\<close>, for \<open>n\<close> ticks starting with tick \<open>t\<close>.  \<open>Next s\<close> is
  a loop that is still running, in state \<open>s\<close>.
\<close>

fun poll_loop :: "world \<Rightarrow> bool \<Rightarrow> comm list \<Rightarrow> bool \<Rightarrow> string list \<Rightarrow> nat \<Rightarrow> nat \<Rightarrow> state \<Rightarrow> state io" where
  "poll_loop w q comms wn command_regexs 0 t s = ([], Next s)"
| "poll_loop w q comms wn command_regexs (Suc n) t s =
     and_then (tick w q comms wn command_regexs t s)
       (\<lambda>s'. poll_loop w q comms wn command_regexs n (Suc t) s')"

subsection \<open>The whole script\<close>

text \<open>Lines 54--100: the communication modules and the processes to watch.\<close>

definition resolve :: "world \<Rightarrow> args \<Rightarrow> (comm list \<times> string list \<times> watch) io" where
  "resolve w a =
     and_then (load_email w a [])
       (\<lambda>comms. and_then (load_dbus_notify w a comms)
         (\<lambda>comms. and_then (init_pids w a [])
           (\<lambda>ps. and_then (init_commands w a ps)
             (\<lambda>(command_regexs, ps). ([], Next (comms, command_regexs, ps))))))"

text \<open>Lines 54--114: what the script has set up when the loop begins.\<close>

record loop_inputs =
  comms_of :: "comm list"
  regexs_of :: "string list"
  watch_new_of :: bool
  state_of :: state

definition startup :: "world \<Rightarrow> args \<Rightarrow> loop_inputs io" where
  "startup w a =
     and_then (resolve w a)
       (\<lambda>(comms, command_regexs, ps).
          and_then (report_watching (quiet a) (watch_new_effective a command_regexs) ps)
            (\<lambda>u. ([], Next \<lparr>comms_of = comms, regexs_of = command_regexs,
                             watch_new_of = watch_new_effective a command_regexs,
                             state_of = \<lparr>processes = ps, to_delete = []\<rparr>\<rparr>)))"

text \<open>Lines 47--145, with the loop run for \<open>n\<close> ticks.\<close>

definition main :: "world \<Rightarrow> args \<Rightarrow> nat \<Rightarrow> state io" where
  "main w a n =
     and_then (startup w a)
       (\<lambda>c. poll_loop w (quiet a) (comms_of c) (watch_new_of c) (regexs_of c) n 1 (state_of c))"

text \<open>
  Lines 40--45: with no argument at all the script prints the help and leaves, before
  \<^verbatim>\<open>--quiet\<close> could be read.
\<close>

definition script :: "world \<Rightarrow> nat \<Rightarrow> args \<Rightarrow> nat \<Rightarrow> state io" where
  "script w argc a n =
     (if argc = 1 then ([Stdout No_arguments_help], Exit 0) else main w a n)"

text \<open>The calls of \<^verbatim>\<open>send\<close> among the events, in order.\<close>

fun is_send :: "event \<Rightarrow> bool" where
  "is_send (Send c h) = True"
| "is_send e = False"

text \<open>The lines of standard output among the events.\<close>

fun is_stdout :: "event \<Rightarrow> bool" where
  "is_stdout (Stdout m) = True"
| "is_stdout e = False"

definition sends :: "event list \<Rightarrow> event list" where
  "sends es = filter is_send es"

subsection \<open>Predicates on the surroundings\<close>

text \<open>A requested communication module does not load (lines 55--78).\<close>

definition channel_fails :: "world \<Rightarrow> args \<Rightarrow> bool" where
  "channel_fails w a =
     ((case to a of None \<Rightarrow> False | Some addrs \<Rightarrow> addrs \<noteq> [] \<and> import_email w \<noteq> Imported)
      \<or> (notify a \<and> import_dbus_notify w \<noteq> Imported))"

text \<open>One of the PIDs given with \<^verbatim>\<open>--pid\<close> is not a running process at start-up.\<close>

definition explicit_pid_missing :: "world \<Rightarrow> args \<Rightarrow> bool" where
  "explicit_pid_missing w a = list_ex (\<lambda>p. os_process w 0 p = None) (pid a)"

subsection \<open>Invariants and views\<close>

text \<open>
  The dictionary is well formed: no key twice, and every handle is the handle of its key.
\<close>

definition watch_ok :: "watch \<Rightarrow> bool" where
  "watch_ok ps = (distinct (map fst ps) \<and> list_all (\<lambda>(k, h). identity h = k) ps)"

text \<open>The state at the head of the loop: a well-formed dictionary, nothing left to delete.\<close>

definition state_ok :: "state \<Rightarrow> bool" where
  "state_ok s = (watch_ok (processes s) \<and> to_delete s = [])"


text \<open>An entry of the dictionary whose \<^verbatim>\<open>check()\<close> returns false in tick \<open>t\<close>.\<close>

definition dead :: "world \<Rightarrow> nat \<Rightarrow> int \<times> process \<Rightarrow> bool" where
  "dead w t e = (\<not> check w t (snd e))"

text \<open>One call of \<^verbatim>\<open>send\<close> per entry of \<^verbatim>\<open>comms\<close>, for each of the given entries in turn.\<close>

definition notifications :: "comm list \<Rightarrow> watch \<Rightarrow> event list" where
  "notifications comms ps = concat (map (\<lambda>e. map (\<lambda>c. Send c (snd e)) comms) ps)"

text \<open>A run without its lines of standard output.\<close>

definition hush :: "'a io \<Rightarrow> 'a io" where
  "hush m = (filter (\<lambda>e. \<not> is_stdout e) (fst m), snd m)"

subsection \<open>Example runs\<close>

text \<open>A machine on which nothing runs; every module loads.\<close>

definition idle_world :: world where
  "idle_world =
     \<lparr>import_email = Imported, import_dbus_notify = Imported, regex_ok = (\<lambda>pat. True),
      os_process = (\<lambda>t p. None), os_matching = (\<lambda>t rs. []),
      os_running = (\<lambda>t h. False), send_ok = (\<lambda>t c h. True)\<rparr>"

text \<open>The same machine without the \<^verbatim>\<open>notify2\<close> package.\<close>

definition no_notify2_world :: world where
  "no_notify2_world = idle_world\<lparr>import_dbus_notify := ImportError (Some ''notify2'')\<rparr>"

text \<open>\<^verbatim>\<open>-c worker --to ops@example.org -n\<close>\<close>

definition no_match_args :: args where
  "no_match_args =
     \<lparr>pid = [], command = [''worker''], watch_new = False, to = Some [''ops@example.org''],
      notify = True, quiet = False\<rparr>"

text \<open>\<^verbatim>\<open>-p 4242 -n\<close>\<close>

definition gone_pid_args :: args where
  "gone_pid_args =
     \<lparr>pid = [4242], command = [], watch_new = False, to = None, notify = True, quiet = False\<rparr>"

text \<open>Two processes: 100 ends before tick 2, 200 matches \<^verbatim>\<open>worker\<close> and ends before tick 3.\<close>

definition sleep_100 :: process where
  "sleep_100 =
     \<lparr>identity = 100, command_line = ''sleep 600'', start_time = 10, process_name = ''sleep''\<rparr>"

definition worker_200 :: process where
  "worker_200 =
     \<lparr>identity = 200, command_line = ''worker --job 7'', start_time = 20,
      process_name = ''worker''\<rparr>"

definition office_world :: world where
  "office_world =
     \<lparr>import_email = Imported, import_dbus_notify = Imported, regex_ok = (\<lambda>pat. True),
      os_process = (\<lambda>t p. if p = 100 then Some (''sleep 600'', 10, ''sleep'')
                           else if p = 200 then Some (''worker --job 7'', 20, ''worker'')
                           else None),
      os_matching = (\<lambda>t rs. if t = 0 then [200] else []),
      os_running = (\<lambda>t h. if identity h = 100 then t < 2 else t < 3),
      send_ok = (\<lambda>t c h. True)\<rparr>"

text \<open>\<^verbatim>\<open>-p 100 -p 100 -p 200 -c worker --to ops@example.org -n -q\<close>\<close>

definition two_pid_args :: args where
  "two_pid_args =
     \<lparr>pid = [100, 100, 200], command = [''worker''], watch_new = False,
      to = Some [''ops@example.org''], notify = True, quiet = True\<rparr>"

definition office_comms :: "comm list" where
  "office_comms = [Email [''ops@example.org''], Dbus_notify]"

text \<open>\<^verbatim>\<open>-p 100 -p 200 -w -n -q\<close>: \<^verbatim>\<open>--watch-new\<close> without any \<^verbatim>\<open>--command\<close>.\<close>

definition flag_only_args :: args where
  "flag_only_args =
     \<lparr>pid = [100, 200], command = [], watch_new = True, to = None, notify = True,
      quiet = True\<rparr>"

text \<open>The office machine with a mail server that refuses every message.\<close>

definition flaky_mail_world :: world where
  "flaky_mail_world = office_world\<lparr>send_ok := (\<lambda>t c h. c = Dbus_notify)\<rparr>"




text \<open>
  A machine on which every process that matches \<^verbatim>\<open>worker\<close> gets PID 7, ends before the
  next tick and is followed by a new one, started later, with the same PID.
\<close>

definition worker_7 :: "nat \<Rightarrow> process" where
  "worker_7 started =
     \<lparr>identity = 7, command_line = ''worker'', start_time = started, process_name = ''worker''\<rparr>"

definition respawn_world :: world where
  "respawn_world =
     \<lparr>import_email = Imported, import_dbus_notify = Imported, regex_ok = (\<lambda>pat. True),
      os_process = (\<lambda>t p. if p = 7 then Some (''worker'', t, ''worker'') else None),
      os_matching = (\<lambda>t rs. [7]),
      os_running = (\<lambda>t h. False), send_ok = (\<lambda>t c h. True)\<rparr>"

text \<open>\<^verbatim>\<open>-c worker -w -n -q\<close>\<close>

definition respawn_args :: args where
  "respawn_args =
     \<lparr>pid = [], command = [''worker''], watch_new = True, to = None, notify = True,
      quiet = True\<rparr>"

section \<open>Properties\<close>

subsection \<open>Sequencing and events\<close>

lemma and_then_unfold:
  "and_then m f =
     (case snd m of
        Next x \<Rightarrow> (fst m @ fst (f x), snd (f x))
      | Exit n \<Rightarrow> (fst m, Exit n)
      | Uncaught e \<Rightarrow> (fst m, Uncaught e))"
  by (cases m; cases "snd m") (auto split: prod.splits)

lemma and_then_eq_Next:
  "and_then m f = (es, Next y) \<longleftrightarrow>
     (\<exists>es1 x es2. m = (es1, Next x) \<and> f x = (es2, Next y) \<and> es = es1 @ es2)"
  by (cases m; cases "snd m") (auto split: prod.splits)

lemma and_then_eq_Exit:
  "and_then m f = (es, Exit n) \<longleftrightarrow>
     m = (es, Exit n) \<or>
     (\<exists>es1 x es2. m = (es1, Next x) \<and> f x = (es2, Exit n) \<and> es = es1 @ es2)"
  by (cases m; cases "snd m") (auto split: prod.splits)

lemma and_then_eq_Uncaught:
  "and_then m f = (es, Uncaught e) \<longleftrightarrow>
     m = (es, Uncaught e) \<or>
     (\<exists>es1 x es2. m = (es1, Next x) \<and> f x = (es2, Uncaught e) \<and> es = es1 @ es2)"
  by (cases m; cases "snd m") (auto split: prod.splits)

lemma sends_append: "sends (xs @ ys) = sends xs @ sends ys"
  by (simp add: sends_def)

lemma sends_print: "sends (print q m) = []"
  by (simp add: sends_def print_def)

subsection \<open>Start-up\<close>

lemma load_email_cases:
  "load_email w a cs = (es, r) \<Longrightarrow>
     sends es = [] \<and> (r = Exit 1 \<or> (\<exists>cs'. r = Next cs' \<and> es = []))"
  by (auto simp: load_email_def sends_def split: option.splits if_splits import_result.splits)

lemma load_dbus_notify_cases:
  "load_dbus_notify w a cs = (es, r) \<Longrightarrow>
     sends es = [] \<and> (r = Exit 1 \<or> (\<exists>cs'. r = Next cs' \<and> es = []))"
  by (auto simp: load_dbus_notify_def sends_def split: if_splits import_result.splits)

lemma init_pids_cases:
  "init_pids w a ps = (es, r) \<Longrightarrow>
     sends es = [] \<and> (r = Exit 1 \<or> (\<exists>e. r = Uncaught e) \<or> (\<exists>ps'. r = Next ps' \<and> es = []))"
  by (auto simp: init_pids_def sends_def print_def split: sum.splits exn.splits if_splits)

lemma init_commands_events: "init_commands w a ps = (es, r) \<Longrightarrow> es = []"
  by (auto simp: init_commands_def split: sum.splits if_splits)

lemma resolve_Next_events:
  assumes "resolve w a = (es, Next x)"
  shows "es = []"
  using assms unfolding resolve_def
  by (auto simp: and_then_eq_Next split: prod.splits
      dest!: load_email_cases load_dbus_notify_cases init_pids_cases init_commands_events)

lemma resolve_sends:
  assumes "resolve w a = (es, r)"
  shows "sends es = []"
  using assms unfolding resolve_def
  by (cases r)
     (auto simp: and_then_eq_Next and_then_eq_Exit and_then_eq_Uncaught sends_append
      split: prod.splits
      dest!: load_email_cases load_dbus_notify_cases init_pids_cases init_commands_events)

lemma add_process_keys:
  assumes "add_process w t p ps = Inr ps1"
  shows "fst ` set ps1 = insert p (fst ` set ps)"
proof (cases "contains ps p")
  case True
  with assms have "ps1 = ps" by (simp add: add_process_def)
  with True show ?thesis by (auto simp: contains_def)
next
  case False
  with assms obtain h where "ps1 = AList.update p h ps"
    by (auto simp: add_process_def split: sum.splits)
  then show ?thesis by (simp add: AList.dom_update)
qed

lemma add_process_found:
  assumes "add_process w t p ps = Inr ps1" "\<not> contains ps p"
  shows "os_process w t p \<noteq> None"
  using assms
  by (auto simp: add_process_def ProcessByPID_def split: if_splits option.splits)

lemma add_process_Inl:
  assumes "add_process w t p ps = Inl e"
  shows "e = NoProcessFound p \<and> \<not> contains ps p \<and> os_process w t p = None"
  using assms
  by (auto simp: add_process_def ProcessByPID_def split: if_splits option.splits)

text \<open>
  A PID of the list that the operating system does not know makes the loop raise: the PIDs
  already watched were all found in this same tick.
\<close>

lemma add_processes_missing:
  assumes "\<exists>p \<in> set ps'. os_process w t p = None"
    and "\<forall>k \<in> fst ` set ps. os_process w t k \<noteq> None"
  shows "\<exists>p. add_processes w t ps' ps = Inl (NoProcessFound p)"
  using assms
proof (induction ps' arbitrary: ps)
  case Nil
  then show ?case by simp
next
  case (Cons p rest)
  show ?case
  proof (cases "add_process w t p ps")
    case (Inl e)
    then show ?thesis
      using add_process_Inl by fastforce
  next
    case (Inr ps1)
    have p: "os_process w t p \<noteq> None"
    proof (cases "contains ps p")
      case True
      with Cons.prems(2) show ?thesis unfolding contains_def by force
    next
      case False
      with Inr show ?thesis by (rule add_process_found)
    qed
    with Cons.prems(2) have keys: "\<forall>k \<in> fst ` set ps1. os_process w t k \<noteq> None"
      unfolding add_process_keys [OF Inr] by blast
    from p Cons.prems(1) have "\<exists>p \<in> set rest. os_process w t p = None" by auto
    from Cons.IH [OF this keys] Inr show ?thesis by simp
  qed
qed

lemma init_pids_missing:
  assumes "explicit_pid_missing w a"
  shows "\<exists>p. init_pids w a [] = (print (quiet a) (No_process_with_PID p), Exit 1)"
proof -
  from assms have "\<exists>p \<in> set (pid a). os_process w 0 p = None"
    by (simp add: explicit_pid_missing_def list_ex_iff)
  then obtain p where "add_processes w 0 (pid a) [] = Inl (NoProcessFound p)"
    using add_processes_missing [of "pid a" w 0 "[]"] by auto
  then show ?thesis by (auto simp: init_pids_def)
qed

lemma load_dbus_notify_fails:
  assumes "notify a" "import_dbus_notify w \<noteq> Imported"
  shows "\<exists>es. load_dbus_notify w a cs = (es, Exit 1) \<and> sends es = []"
  using assms by (cases "import_dbus_notify w") (auto simp: load_dbus_notify_def sends_def)

lemma channels_load:
  assumes "\<not> channel_fails w a"
  shows "\<exists>c1 c2. load_email w a [] = ([], Next c1) \<and> load_dbus_notify w a c1 = ([], Next c2)"
proof -
  have "\<exists>c1. load_email w a [] = ([], Next c1)"
    using assms by (cases "to a"; cases "import_email w") (auto simp: channel_fails_def load_email_def)
  moreover have "\<exists>c2. load_dbus_notify w a c1 = ([], Next c2)" for c1
    using assms by (cases "import_dbus_notify w") (auto simp: channel_fails_def load_dbus_notify_def)
  ultimately show ?thesis by blast
qed

lemma resolve_channel_fails:
  assumes "channel_fails w a"
  shows "\<exists>es. resolve w a = (es, Exit 1) \<and> sends es = []"
proof (cases "load_email w a []")
  case (Pair e1 r1)
  note le = load_email_cases [OF Pair]
  show ?thesis
  proof (cases r1)
    case (Next cs)
    with le have e1: "e1 = []" by simp
    from Next Pair assms have nf: "notify a \<and> import_dbus_notify w \<noteq> Imported"
      by (auto simp: channel_fails_def load_email_def
          split: option.splits if_splits import_result.splits)
    then obtain e2 where "load_dbus_notify w a cs = (e2, Exit 1)" "sends e2 = []"
      using load_dbus_notify_fails by blast
    with Pair Next e1 show ?thesis by (simp add: resolve_def)
  next
    case (Exit n)
    with le Pair show ?thesis by (simp add: resolve_def)
  next
    case (Uncaught e)
    with le show ?thesis by simp
  qed
qed

lemma resolve_explicit_pid_missing:
  assumes "explicit_pid_missing w a"
  shows "\<exists>es. resolve w a = (es, Exit 1) \<and> sends es = []"
proof (cases "channel_fails w a")
  case True
  then show ?thesis by (rule resolve_channel_fails)
next
  case False
  then obtain c1 c2 where l1: "load_email w a [] = ([], Next c1)"
    and l2: "load_dbus_notify w a c1 = ([], Next c2)"
    using channels_load by blast
  from init_pids_missing [OF assms] obtain p where
    "init_pids w a [] = (print (quiet a) (No_process_with_PID p), Exit 1)" ..
  with l1 l2 show ?thesis by (simp add: resolve_def sends_print)
qed

subsection \<open>The dictionary\<close>

lemma update_new_key:
  "p \<notin> fst ` set ps \<Longrightarrow> AList.update p h ps = ps @ [(p, h)]"
  by (induction ps) auto

lemma ProcessByPID_identity:
  "ProcessByPID w t p = Inr h \<Longrightarrow> identity h = p"
  by (auto simp: ProcessByPID_def split: option.splits)

lemma add_process_Inr:
  assumes "add_process w t p ps = Inr ps1"
  shows "(contains ps p \<and> ps1 = ps) \<or>
         (\<not> contains ps p \<and> (\<exists>h. ProcessByPID w t p = Inr h \<and> ps1 = ps @ [(p, h)]))"
proof (cases "contains ps p")
  case True
  with assms show ?thesis by (simp add: add_process_def)
next
  case False
  with assms obtain h where "ProcessByPID w t p = Inr h" "ps1 = AList.update p h ps"
    by (auto simp: add_process_def split: sum.splits)
  with False show ?thesis by (simp add: contains_def update_new_key)
qed

lemma watch_ok_snoc:
  assumes "watch_ok ps" "\<not> contains ps p" "identity h = p"
  shows "watch_ok (ps @ [(p, h)])"
  using assms by (auto simp: watch_ok_def contains_def)

lemma add_process_ok:
  assumes "add_process w t p ps = Inr ps1" "watch_ok ps"
  shows "watch_ok ps1"
  using add_process_Inr [OF assms(1)] assms(2)
  by (auto intro: watch_ok_snoc dest: ProcessByPID_identity)

lemma add_processes_ok:
  assumes "add_processes w t pids ps = Inr ps1" "watch_ok ps"
  shows "watch_ok ps1"
  using assms
proof (induction pids arbitrary: ps)
  case Nil
  then show ?case by simp
next
  case (Cons p rest)
  then show ?case
    by (auto split: sum.splits intro: add_process_ok)
qed

lemma discover_ok:
  assumes "discover w q t pids ps = (es, Next ps1)" "watch_ok ps"
  shows "watch_ok ps1"
  using assms
proof (induction pids arbitrary: ps es)
  case Nil
  then show ?case by simp
next
  case (Cons p rest)
  show ?case
  proof (cases "contains ps p")
    case True
    with Cons show ?thesis by simp
  next
    case False
    with Cons.prems(1) obtain h es' where h: "ProcessByPID w t p = Inr h"
      and d: "discover w q t rest (AList.update p h ps) = (es', Next ps1)"
      by (auto split: sum.splits prod.splits)
    from False have "AList.update p h ps = ps @ [(p, h)]"
      by (simp add: contains_def update_new_key)
    moreover from h have "identity h = p" by (rule ProcessByPID_identity)
    ultimately have "watch_ok (AList.update p h ps)"
      using False Cons.prems(2) by (simp add: watch_ok_snoc)
    with d show ?thesis by (rule Cons.IH)
  qed
qed

lemma watch_ok_filter: "watch_ok ps \<Longrightarrow> watch_ok (filter P ps)"
  by (auto simp: watch_ok_def distinct_map_filter list_all_iff)

lemma delete_all_Inr:
  "delete_all td ps = Inr ps1 \<Longrightarrow> ps1 = filter (\<lambda>e. fst e \<notin> set td) ps"
proof (induction td arbitrary: ps)
  case Nil
  then show ?case by simp
next
  case (Cons p rest)
  then have "ps1 = filter (\<lambda>e. fst e \<notin> set rest) (AList.delete p ps)"
    by (simp split: if_splits)
  moreover have "filter (\<lambda>e. fst e \<notin> set rest) (AList.delete p ps) =
      filter (\<lambda>e. fst e \<notin> set (p # rest)) ps"
    by (auto simp: AList.delete_eq intro: filter_cong)
  ultimately show ?case by simp
qed

lemma delete_all_present:
  assumes "distinct td" "set td \<subseteq> fst ` set ps"
  shows "delete_all td ps = Inr (filter (\<lambda>e. fst e \<notin> set td) ps)"
  using assms
proof (induction td arbitrary: ps)
  case Nil
  then show ?case by simp
next
  case (Cons p rest)
  have "set rest \<subseteq> fst ` set (AList.delete p ps)"
  proof
    fix x assume x: "x \<in> set rest"
    with Cons.prems have "x \<noteq> p" "x \<in> fst ` set ps" by auto
    then obtain b where "(x, b) \<in> set ps" by auto
    with \<open>x \<noteq> p\<close> have "(x, b) \<in> set (AList.delete p ps)"
      by (auto simp: AList.delete_eq)
    then show "x \<in> fst ` set (AList.delete p ps)" by force
  qed
  with Cons have "delete_all rest (AList.delete p ps) =
      Inr (filter (\<lambda>e. fst e \<notin> set rest) (AList.delete p ps))"
    by simp
  moreover have "filter (\<lambda>e. fst e \<notin> set rest) (AList.delete p ps) =
      filter (\<lambda>e. fst e \<notin> set (p # rest)) ps"
    by (auto simp: AList.delete_eq intro: filter_cong)
  moreover from Cons.prems have "contains ps p" by (simp add: contains_def)
  ultimately show ?case by simp
qed


lemma send_all_result:
  "send_all w t comms h =
     (map (\<lambda>c. Send c h) (takeWhile (\<lambda>c. send_ok w t c h) comms)
        @ (case dropWhile (\<lambda>c. send_ok w t c h) comms of [] \<Rightarrow> [] | c # cs \<Rightarrow> [Send c h]),
      case dropWhile (\<lambda>c. send_ok w t c h) comms of
        [] \<Rightarrow> Next ()
      | c # cs \<Rightarrow> Uncaught (SendError c))"
  by (induction comms) (auto split: list.splits)

lemma send_all_ok:
  assumes "list_all (\<lambda>c. send_ok w t c h) comms"
  shows "send_all w t comms h = (map (\<lambda>c. Send c h) comms, Next ())"
  using assms by (induction comms) auto

lemma send_all_cases:
  "(list_all (\<lambda>c. send_ok w t c h) comms \<and> send_all w t comms h = (map (\<lambda>c. Send c h) comms, Next ()))
   \<or> (\<not> list_all (\<lambda>c. send_ok w t c h) comms \<and> (\<exists>es c. send_all w t comms h = (es, Uncaught (SendError c))))"
  by (induction comms) auto

lemma sends_map_Send: "sends (map (\<lambda>c. Send c h) comms) = map (\<lambda>c. Send c h) comms"
  by (induction comms) (auto simp: sends_def)

lemma scan_dead_step:
  assumes "\<not> check w t h" "list_all (\<lambda>c. send_ok w t c h) comms"
  shows "scan w q comms t ((k, h) # rest) td =
     (print q Process_stopped @ print q (Info h) @ map (\<lambda>c. Send c h) comms
        @ fst (scan w q comms t rest (td @ [k])),
      snd (scan w q comms t rest (td @ [k])))"
  using assms by (simp add: send_all_ok and_then_unfold split: prod.splits)

lemma scan_dead_fail:
  assumes "\<not> check w t h" "\<not> list_all (\<lambda>c. send_ok w t c h) comms"
  shows "\<exists>es c. scan w q comms t ((k, h) # rest) td = (es, Uncaught (SendError c))"
proof -
  from send_all_cases [of w t h comms] assms(2)
  obtain es c where "send_all w t comms h = (es, Uncaught (SendError c))" by auto
  with assms(1) show ?thesis by (simp add: and_then_unfold)
qed

lemma scan_Next:
  assumes "scan w q comms t ps td = (es, Next td')"
  shows "td' = td @ map fst (filter (dead w t) ps)
       \<and> sends es = notifications comms (filter (dead w t) ps)"
  using assms
proof (induction ps arbitrary: td es)
  case Nil
  then show ?case by (simp add: sends_def notifications_def)
next
  case (Cons e rest)
  obtain k h where e: "e = (k, h)" by (cases e)
  show ?case
  proof (cases "check w t h")
    case True
    with Cons e show ?thesis by (simp add: dead_def)
  next
    case False
    have ok: "list_all (\<lambda>c. send_ok w t c h) comms"
    proof (rule ccontr)
      assume "\<not> list_all (\<lambda>c. send_ok w t c h) comms"
      from scan_dead_fail [OF False this, of q k rest td] Cons.prems e show False by auto
    qed
    obtain es' r' where r: "scan w q comms t rest (td @ [k]) = (es', r')"
      by (cases "scan w q comms t rest (td @ [k])")
    from scan_dead_step [OF False ok, of q k rest td] r Cons.prems e
    have r': "r' = Next td'"
      and es: "es = print q Process_stopped @ print q (Info h) @ map (\<lambda>c. Send c h) comms @ es'"
      by simp_all
    from Cons.IH [of "td @ [k]" es'] r r' es e False show ?thesis
      by (simp add: dead_def sends_append sends_print sends_map_Send notifications_def)
  qed
qed

lemma scan_not_Exit: "snd (scan w q comms t ps td) \<noteq> Exit n"
proof (induction ps arbitrary: td)
  case Nil
  then show ?case by simp
next
  case (Cons e rest)
  obtain k h where e: "e = (k, h)" by (cases e)
  show ?case
  proof (cases "check w t h")
    case True
    with Cons e show ?thesis by simp
  next
    case False
    show ?thesis
    proof (cases "list_all (\<lambda>c. send_ok w t c h) comms")
      case True
      from scan_dead_step [OF False True, of q k rest td] Cons e show ?thesis by simp
    next
      case nok: False
      from scan_dead_fail [OF False nok, of q k rest td] e show ?thesis by auto
    qed
  qed
qed

lemma scan_Uncaught:
  assumes "scan w q comms t ps td = (es, Uncaught x)"
  shows "\<exists>e \<in> set ps. dead w t e \<and> \<not> list_all (\<lambda>c. send_ok w t c (snd e)) comms"
  using assms
proof (induction ps arbitrary: td es)
  case Nil
  then show ?case by simp
next
  case (Cons e rest)
  obtain k h where e: "e = (k, h)" by (cases e)
  show ?case
  proof (cases "check w t h")
    case True
    with Cons.prems e have "scan w q comms t rest td = (es, Uncaught x)" by simp
    from Cons.IH [OF this] show ?thesis by auto
  next
    case False
    show ?thesis
    proof (cases "list_all (\<lambda>c. send_ok w t c h) comms")
      case True
      obtain es' r' where r: "scan w q comms t rest (td @ [k]) = (es', r')"
        by (cases "scan w q comms t rest (td @ [k])")
      from scan_dead_step [OF False True, of q k rest td] r Cons.prems e
      have "r' = Uncaught x" by simp
      with r Cons.IH [of "td @ [k]" es'] show ?thesis by auto
    next
      case nok: False
      with False e show ?thesis by (auto simp: dead_def)
    qed
  qed
qed

lemma scan_all_delivered:
  assumes "\<forall>e \<in> set ps. dead w t e \<longrightarrow> list_all (\<lambda>c. send_ok w t c (snd e)) comms"
  shows "\<exists>es. scan w q comms t ps td = (es, Next (td @ map fst (filter (dead w t) ps)))"
proof (cases "scan w q comms t ps td")
  case (Pair es r)
  show ?thesis
  proof (cases r)
    case (Next td')
    with Pair scan_Next [of w q comms t ps td es td'] show ?thesis by simp
  next
    case (Exit n)
    with Pair scan_not_Exit [of w q comms t ps td n] show ?thesis by simp
  next
    case (Uncaught x)
    with Pair scan_Uncaught [of w q comms t ps td es x] assms show ?thesis by blast
  qed
qed

lemma filter_dead_keys:
  assumes "distinct (map fst ps)"
  shows "filter (\<lambda>e. fst e \<notin> set (map fst (filter (dead w t) ps))) ps
       = filter (\<lambda>e. \<not> dead w t e) ps"
proof (rule filter_cong [OF refl])
  fix e assume e: "e \<in> set ps"
  show "(fst e \<notin> set (map fst (filter (dead w t) ps))) = (\<not> dead w t e)"
  proof
    assume "fst e \<notin> set (map fst (filter (dead w t) ps))"
    with e show "\<not> dead w t e" by force
  next
    assume nd: "\<not> dead w t e"
    show "fst e \<notin> set (map fst (filter (dead w t) ps))"
    proof
      assume "fst e \<in> set (map fst (filter (dead w t) ps))"
      then obtain e' where e': "e' \<in> set ps" "dead w t e'" "fst e' = fst e" by auto
      with assms e have "e' = e" by (meson distinct_map inj_onD)
      with e' nd show False by simp
    qed
  qed
qed

lemma apply_deletions_to_delete:
  "apply_deletions ps td = (es, Next s') \<Longrightarrow> es = [] \<and> to_delete s' = []
     \<and> processes s' = filter (\<lambda>e. fst e \<notin> set td) ps"
  by (auto simp: apply_deletions_def split: if_splits sum.splits dest: delete_all_Inr)

lemma scan_and_remove_Next:
  assumes "scan_and_remove w q comms t s = (es, Next s')"
    and "distinct (map fst (processes s))" "to_delete s = []"
  shows "s' = \<lparr>processes = filter (\<lambda>e. \<not> dead w t e) (processes s), to_delete = []\<rparr>
       \<and> sends es = notifications comms (filter (dead w t) (processes s))"
proof -
  from assms(1) obtain es1 td where sc: "scan w q comms t (processes s) (to_delete s) = (es1, Next td)"
    and ad: "apply_deletions (processes s) td = ([], Next s')" and es: "es = es1"
    by (auto simp: scan_and_remove_def and_then_eq_Next dest: apply_deletions_to_delete)
  from scan_Next [OF sc] assms(3) have td: "td = map fst (filter (dead w t) (processes s))"
    and sn: "sends es1 = notifications comms (filter (dead w t) (processes s))" by simp_all
  from apply_deletions_to_delete [OF ad] td filter_dead_keys [OF assms(2), of w t]
  have "processes s' = filter (\<lambda>e. \<not> dead w t e) (processes s)" "to_delete s' = []"
    by simp_all
  with sn es show ?thesis by simp
qed

lemma scan_and_remove_runs:
  assumes "scan w q comms t (processes s) (to_delete s) = (es, Next td)"
    and "distinct (map fst (processes s))" "to_delete s = []"
  shows "scan_and_remove w q comms t s =
     (es, Next \<lparr>processes = filter (\<lambda>e. \<not> dead w t e) (processes s), to_delete = []\<rparr>)"
proof -
  from scan_Next [OF assms(1)] assms(3) have td: "td = map fst (filter (dead w t) (processes s))"
    by simp
  have "distinct td" unfolding td using assms(2) by (simp add: distinct_map_filter)
  moreover have "set td \<subseteq> fst ` set (processes s)" unfolding td by auto
  ultimately have "delete_all td (processes s) = Inr (filter (\<lambda>e. fst e \<notin> set td) (processes s))"
    by (rule delete_all_present)
  then have "\<exists>s'. apply_deletions (processes s) td = ([], Next s')"
    by (simp add: apply_deletions_def)
  then obtain s' where "scan_and_remove w q comms t s = (es, Next s')"
    using assms(1) by (auto simp: scan_and_remove_def)
  from this scan_and_remove_Next [OF this assms(2,3)] show ?thesis by simp
qed

lemma scan_and_remove_ok:
  assumes "scan_and_remove w q comms t s = (es, Next s')" "state_ok s"
  shows "state_ok s'"
proof -
  from assms(2) have d: "distinct (map fst (processes s))" and td: "to_delete s = []"
    by (simp_all add: state_ok_def watch_ok_def)
  from scan_and_remove_Next [OF assms(1) d td] assms(2) show ?thesis
    by (simp add: state_ok_def watch_ok_filter)
qed

lemma loop_tail_ok:
  assumes "loop_tail w q wn rs t s = (es, Next s')" "state_ok s"
  shows "state_ok s'"
proof (cases wn)
  case True
  with assms(1) obtain ps' es' where
    "discover w q t (pids_with_command_name w t rs) (processes s) = (es', Next ps')"
    and "s' = s\<lparr>processes := ps'\<rparr>"
    by (auto simp: loop_tail_def and_then_eq_Next)
  with assms(2) discover_ok show ?thesis by (auto simp: state_ok_def)
next
  case False
  with assms show ?thesis by (auto simp: loop_tail_def split: if_splits)
qed

lemma tick_ok:
  assumes "tick w q comms wn rs t s = (es, Next s')" "state_ok s"
  shows "state_ok s'"
  using assms unfolding tick_def
  by (auto simp: and_then_eq_Next dest: scan_and_remove_ok loop_tail_ok)

lemma poll_loop_ok:
  assumes "poll_loop w q comms wn rs n t s = (es, Next s')" "state_ok s"
  shows "state_ok s'"
  using assms
proof (induction n arbitrary: t s es)
  case 0
  then show ?case by simp
next
  case (Suc n)
  from Suc.prems(1) obtain es1 s1 es2 where
    t1: "tick w q comms wn rs t s = (es1, Next s1)"
    and p: "poll_loop w q comms wn rs n (Suc t) s1 = (es2, Next s')"
    by (auto simp: and_then_eq_Next)
  from tick_ok [OF t1 Suc.prems(2)] have "state_ok s1" .
  with p show ?case by (rule Suc.IH)
qed

lemma watch_ok_Nil: "watch_ok []"
  by (simp add: watch_ok_def)

lemma init_pids_ok:
  assumes "init_pids w a ps = (es, Next ps1)" "watch_ok ps"
  shows "watch_ok ps1"
  using assms
  by (auto simp: init_pids_def split: sum.splits exn.splits dest: add_processes_ok)

lemma init_commands_ok:
  assumes "init_commands w a ps = (es, Next (rs, ps1))" "watch_ok ps"
  shows "watch_ok ps1"
  using assms
  by (auto simp: init_commands_def split: sum.splits if_splits dest: add_processes_ok)

lemma resolve_ok:
  assumes "resolve w a = (es, Next (comms, rs, ps))"
  shows "watch_ok ps"
  using assms unfolding resolve_def
  by (auto simp: and_then_eq_Next split: prod.splits
      dest!: init_pids_ok [OF _ watch_ok_Nil] dest: init_commands_ok)

lemma startup_ok:
  assumes "startup w a = (es, Next c)"
  shows "state_ok (state_of c)"
  using assms unfolding startup_def
  by (auto simp: and_then_eq_Next state_ok_def split: prod.splits dest: resolve_ok)

lemma main_ok:
  assumes "main w a n = (es, Next s)"
  shows "state_ok s"
  using assms unfolding main_def
  by (auto simp: and_then_eq_Next dest: startup_ok poll_loop_ok)


subsection \<open>The loop\<close>

lemma and_then_assoc:
  "and_then (and_then m f) g = and_then m (\<lambda>x. and_then (f x) g)"
  by (cases m; cases "snd m") (auto simp: and_then_unfold split: prod.splits flow.splits)

lemma and_then_return: "and_then m (\<lambda>x. ([], Next x)) = m"
  by (cases m; cases "snd m") auto

lemma and_then_Next_left: "and_then ([], Next x) f = f x"
  by (cases "f x") simp

lemma poll_loop_snoc:
  "poll_loop w q comms wn rs (Suc n) t s =
     and_then (poll_loop w q comms wn rs n t s) (\<lambda>s'. tick w q comms wn rs (t + n) s')"
proof (induction n arbitrary: t s)
  case 0
  show ?case by (auto simp: and_then_unfold prod_eq_iff split: flow.splits)
next
  case (Suc n)
  have "poll_loop w q comms wn rs (Suc (Suc n)) t s =
      and_then (tick w q comms wn rs t s) (\<lambda>s'. poll_loop w q comms wn rs (Suc n) (Suc t) s')"
    by (rule poll_loop.simps(2))
  also have "\<dots> = and_then (tick w q comms wn rs t s)
      (\<lambda>s'. and_then (poll_loop w q comms wn rs n (Suc t) s')
         (\<lambda>s''. tick w q comms wn rs (Suc t + n) s''))"
    by (simp only: Suc.IH)
  also have "\<dots> = and_then (poll_loop w q comms wn rs (Suc n) t s)
      (\<lambda>s'. tick w q comms wn rs (t + Suc n) s')"
    by (simp add: and_then_assoc)
  finally show ?case .
qed

lemma discover_not_Exit: "snd (discover w q t pids ps) \<noteq> Exit n"
proof (induction pids arbitrary: ps)
  case Nil
  then show ?case by simp
next
  case (Cons p rest)
  then show ?case
    by (auto simp: and_then_unfold split: sum.splits flow.splits prod.splits)
qed









subsection \<open>Quiet runs\<close>

lemma hush_and_then:
  "hush (and_then m f) = and_then (hush m) (\<lambda>x. hush (f x))"
  by (cases m; cases "snd m") (auto simp: hush_def split: prod.splits)

lemma hush_and_then_cong:
  assumes "hush m = hush m'" and "\<And>x. hush (f x) = hush (f' x)"
  shows "hush (and_then m f) = hush (and_then m' f')"
  by (simp add: hush_and_then assms)

lemma hush_print: "hush (print q m @ es, r) = hush (es, r)"
  by (simp add: hush_def print_def)

lemma hush_prints: "hush (print q m @ print q m', r) = ([], r)"
  by (simp add: hush_def print_def)

lemma hush_print1: "hush (print q m, r) = ([], r)"
  by (simp add: hush_def print_def)

lemma sends_hush: "sends (fst (hush m)) = sends (fst m)"
proof -
  have "filter is_send (filter (\<lambda>e. \<not> is_stdout e) es) = filter is_send es" for es
    by (induction es) (auto elim: is_send.elims)
  then show ?thesis by (simp add: hush_def sends_def)
qed

lemma hush_scan:
  "hush (scan w q comms t ps td) = hush (scan w q' comms t ps td)"
proof (induction ps arbitrary: td)
  case Nil
  show ?case by simp
next
  case (Cons e rest)
  obtain k h where e: "e = (k, h)" by (cases e)
  show ?case
  proof (cases "check w t h")
    case True
    with Cons e show ?thesis by simp
  next
    case False
    have "hush (and_then (print q Process_stopped @ print q (Info h), Next ())
            (\<lambda>u. and_then (send_all w t comms h) (\<lambda>u. scan w q comms t rest (td @ [k]))))
        = hush (and_then (print q' Process_stopped @ print q' (Info h), Next ())
            (\<lambda>u. and_then (send_all w t comms h) (\<lambda>u. scan w q' comms t rest (td @ [k]))))"
      by (intro hush_and_then_cong refl Cons.IH) (simp add: hush_prints)
    with False e show ?thesis by simp
  qed
qed

lemma hush_discover:
  "hush (discover w q t pids ps) = hush (discover w q' t pids ps)"
proof (induction pids arbitrary: ps)
  case Nil
  show ?case by simp
next
  case (Cons p rest)
  show ?case
  proof (cases "contains ps p")
    case True
    with Cons show ?thesis by simp
  next
    case False
    show ?thesis
    proof (cases "ProcessByPID w t p")
      case (Inl x)
      with False show ?thesis by simp
    next
      case (Inr h)
      have "hush (and_then (print q (Info h), Next ())
              (\<lambda>u. discover w q t rest (AList.update p h ps)))
          = hush (and_then (print q' (Info h), Next ())
              (\<lambda>u. discover w q' t rest (AList.update p h ps)))"
        by (intro hush_and_then_cong Cons.IH) (simp add: hush_print1)
      with False Inr show ?thesis by simp
    qed
  qed
qed

lemma hush_tick:
  "hush (tick w q comms wn rs t s) = hush (tick w q' comms wn rs t s)"
  unfolding tick_def scan_and_remove_def loop_tail_def
  by (intro hush_and_then_cong refl hush_scan) (auto intro!: hush_and_then_cong hush_discover)

lemma hush_poll_loop:
  "hush (poll_loop w q comms wn rs n t s) = hush (poll_loop w q' comms wn rs n t s)"
proof (induction n arbitrary: t s)
  case 0
  show ?case by simp
next
  case (Suc n)
  show ?case
    unfolding poll_loop.simps by (intro hush_and_then_cong hush_tick Suc.IH)
qed

lemma hush_report_watching:
  "hush (report_watching q wn ps) = hush (report_watching q' wn ps)"
proof -
  have "filter (\<lambda>e. \<not> is_stdout e) (concat (map (\<lambda>(k, h). print q (Info h)) ps)) = []" for q
    by (induction ps) (auto simp: print_def)
  then show ?thesis
    by (simp add: report_watching_def hush_def print_def)
qed

lemma hush_init_pids:
  "hush (init_pids w (a\<lparr>quiet := q\<rparr>) ps) = hush (init_pids w (a\<lparr>quiet := q'\<rparr>) ps)"
  by (simp add: init_pids_def hush_def print_def split: sum.splits exn.splits)

lemma hush_resolve:
  "hush (resolve w (a\<lparr>quiet := q\<rparr>)) = hush (resolve w (a\<lparr>quiet := q'\<rparr>))"
proof -
  have 1: "load_email w (a\<lparr>quiet := q\<rparr>) cs = load_email w a cs" for q cs
    by (simp add: load_email_def)
  have 2: "load_dbus_notify w (a\<lparr>quiet := q\<rparr>) cs = load_dbus_notify w a cs" for q cs
    by (simp add: load_dbus_notify_def)
  have 3: "init_commands w (a\<lparr>quiet := q\<rparr>) ps = init_commands w a ps" for q ps
    by (simp add: init_commands_def)
  show ?thesis
    unfolding resolve_def 1 2 3
    by (intro hush_and_then_cong refl hush_init_pids)
qed

lemma hush_main:
  "hush (main w (a\<lparr>quiet := q\<rparr>) n) = hush (main w (a\<lparr>quiet := q'\<rparr>) n)"
proof -
  have wn: "watch_new_effective (a\<lparr>quiet := q\<rparr>) rs = watch_new_effective a rs" for q rs
    by (simp add: watch_new_effective_def)
  show ?thesis
    unfolding main_def startup_def and_then_assoc
    apply (rule hush_and_then_cong [OF hush_resolve])
    apply (simp add: wn split: prod.splits)
    apply (intro allI impI hush_and_then_cong hush_report_watching)
    apply (simp add: and_then_Next_left del: and_then.simps)
    apply (rule hush_poll_loop)
    done
qed

subsection \<open>Runs without discovery\<close>

lemma add_processes_keys:
  assumes "add_processes w t pids ps = Inr ps'"
  shows "fst ` set ps' = set pids \<union> fst ` set ps"
  using assms
proof (induction pids arbitrary: ps)
  case Nil
  then show ?case by simp
next
  case (Cons p rest)
  then obtain ps1 where a: "add_process w t p ps = Inr ps1"
    and r: "add_processes w t rest ps1 = Inr ps'"
    by (auto split: sum.splits)
  from Cons.IH [OF r] add_process_keys [OF a] show ?case by auto
qed

lemma init_commands_no_patterns:
  assumes "command a = []"
  shows "init_commands w a ps = ([], Next ([], ps))"
  using assms by (simp add: init_commands_def)

lemma resolve_no_patterns:
  assumes "resolve w a = (es, Next (comms, rs, ps))" "command a = []"
  shows "rs = [] \<and> fst ` set ps = set (pid a)"
proof -
  from assms obtain e3 ps0 where ip: "init_pids w a [] = (e3, Next ps0)"
    and "rs = []" "ps = ps0"
    unfolding resolve_def
    by (auto simp: and_then_eq_Next init_commands_no_patterns split: prod.splits)
  moreover from ip have "add_processes w 0 (pid a) [] = Inr ps0"
    by (auto simp: init_pids_def split: sum.splits exn.splits)
  from add_processes_keys [OF this] have "fst ` set ps0 = set (pid a)" by simp
  ultimately show ?thesis by simp
qed

lemma startup_no_patterns:
  assumes "startup w a = (es, Next c)" "command a = []"
  shows "\<not> watch_new_of c \<and> processes (state_of c) \<noteq> []
       \<and> fst ` set (processes (state_of c)) = set (pid a)"
proof -
  from assms(1) obtain e1 comms rs ps e2 where r: "resolve w a = (e1, Next (comms, rs, ps))"
    and rw: "report_watching (quiet a) (watch_new_effective a rs) ps = (e2, Next ())"
    and c: "c = \<lparr>comms_of = comms, regexs_of = rs, watch_new_of = watch_new_effective a rs,
                 state_of = \<lparr>processes = ps, to_delete = []\<rparr>\<rparr>"
    unfolding startup_def by (auto simp: and_then_eq_Next split: prod.splits)
  from resolve_no_patterns [OF r assms(2)] have rs: "rs = []" and k: "fst ` set ps = set (pid a)"
    by simp_all
  from rs have wn: "\<not> watch_new_effective a rs" by (simp add: watch_new_effective_def)
  with rw have "ps \<noteq> []" by (auto simp: report_watching_def split: if_splits)
  with wn k c show ?thesis by simp
qed

lemma tick_no_discovery_Next:
  assumes "tick w q comms False rs t s = (es, Next s')"
  shows "processes s' \<noteq> [] \<and> set (processes s') \<subseteq> set (processes s)"
proof -
  from assms obtain e1 s1 e2 where sr: "scan_and_remove w q comms t s = (e1, Next s1)"
    and lt: "loop_tail w q False rs t s1 = (e2, Next s')"
    unfolding tick_def by (auto simp: and_then_eq_Next)
  from lt have s': "s' = s1" "processes s1 \<noteq> []"
    by (auto simp: loop_tail_def split: if_splits)
  from sr obtain td e3 where "apply_deletions (processes s) td = (e3, Next s1)"
    unfolding scan_and_remove_def by (auto simp: and_then_eq_Next)
  from apply_deletions_to_delete [OF this] have "set (processes s1) \<subseteq> set (processes s)"
    by auto
  with s' show ?thesis by simp
qed

lemma poll_loop_no_discovery_Next:
  assumes "poll_loop w q comms False rs n t s = (es, Next s')" "processes s \<noteq> []"
  shows "processes s' \<noteq> [] \<and> set (processes s') \<subseteq> set (processes s)"
  using assms
proof (induction n arbitrary: t s es)
  case 0
  then show ?case by simp
next
  case (Suc n)
  from Suc.prems(1) obtain e1 s1 e2 where tk: "tick w q comms False rs t s = (e1, Next s1)"
    and pl: "poll_loop w q comms False rs n (Suc t) s1 = (e2, Next s')"
    by (auto simp: and_then_eq_Next)
  from tick_no_discovery_Next [OF tk] have s1: "processes s1 \<noteq> []"
    "set (processes s1) \<subseteq> set (processes s)" by simp_all
  from Suc.IH [OF pl s1(1)] s1(2) show ?case by auto
qed

lemma scan_Uncaught_SendError:
  assumes "scan w q comms t ps td = (es, Uncaught x)"
  shows "\<exists>c. x = SendError c"
  using assms
proof (induction ps arbitrary: td es)
  case Nil
  then show ?case by simp
next
  case (Cons e rest)
  obtain k h where e: "e = (k, h)" by (cases e)
  show ?case
  proof (cases "check w t h")
    case True
    with Cons.prems e have "scan w q comms t rest td = (es, Uncaught x)" by simp
    then show ?thesis by (rule Cons.IH)
  next
    case False
    show ?thesis
    proof (cases "list_all (\<lambda>c. send_ok w t c h) comms")
      case True
      obtain es' r' where r: "scan w q comms t rest (td @ [k]) = (es', r')"
        by (cases "scan w q comms t rest (td @ [k])")
      from scan_dead_step [OF False True, of q k rest td] r Cons.prems e
      have "r' = Uncaught x" by simp
      with r Cons.IH [of "td @ [k]" es'] show ?thesis by simp
    next
      case nok: False
      from scan_dead_fail [OF False nok, of q k rest td] Cons.prems e show ?thesis by auto
    qed
  qed
qed

lemma tick_all_dead:
  assumes "distinct (map fst (processes s))" "to_delete s = []"
    and "list_all (dead w t) (processes s)"
  shows "snd (tick w q comms False rs t s) = Exit 0
       \<or> (\<exists>c. snd (tick w q comms False rs t s) = Uncaught (SendError c))"
proof -
  obtain es r where sc: "scan w q comms t (processes s) (to_delete s) = (es, r)"
    by (cases "scan w q comms t (processes s) (to_delete s)")
  show ?thesis
  proof (cases r)
    case (Next td)
    from assms(3) have "filter (\<lambda>e. \<not> dead w t e) (processes s) = []"
      by (simp add: list_all_iff filter_empty_conv)
    with scan_and_remove_runs [OF sc [unfolded Next] assms(1,2)]
    have "scan_and_remove w q comms t s = (es, Next \<lparr>processes = [], to_delete = []\<rparr>)"
      by simp
    then show ?thesis by (simp add: tick_def loop_tail_def)
  next
    case (Exit k)
    with sc scan_not_Exit [of w q comms t "processes s" "to_delete s" k] show ?thesis by simp
  next
    case (Uncaught x)
    with sc scan_Uncaught_SendError obtain c where "x = SendError c" by blast
    with sc Uncaught show ?thesis by (simp add: tick_def scan_and_remove_def)
  qed
qed

lemma main_Next:
  assumes "main w a n = (es, Next s)"
  shows "\<exists>e0 c e1. startup w a = (e0, Next c)
       \<and> poll_loop w (quiet a) (comms_of c) (watch_new_of c) (regexs_of c) n 1 (state_of c)
           = (e1, Next s) \<and> es = e0 @ e1"
  using assms unfolding main_def by (auto simp: and_then_eq_Next)

lemma main_Suc:
  assumes "startup w a = (e0, Next c)"
    and "poll_loop w (quiet a) (comms_of c) (watch_new_of c) (regexs_of c) n 1 (state_of c)
           = (e1, Next s)"
  shows "snd (main w a (Suc n))
       = snd (tick w (quiet a) (comms_of c) (watch_new_of c) (regexs_of c) (Suc n) s)"
  using assms unfolding main_def poll_loop_snoc
  by (simp add: and_then_unfold split: prod.splits)

lemma main_flag_irrelevant:
  assumes "command a = []"
  shows "main w (a\<lparr>watch_new := b\<rparr>) n = main w a n"
proof -
  have 1: "load_email w (a\<lparr>watch_new := b\<rparr>) cs = load_email w a cs" for cs
    by (simp add: load_email_def)
  have 2: "load_dbus_notify w (a\<lparr>watch_new := b\<rparr>) cs = load_dbus_notify w a cs" for cs
    by (simp add: load_dbus_notify_def)
  have 3: "init_pids w (a\<lparr>watch_new := b\<rparr>) ps = init_pids w a ps" for ps
    by (simp add: init_pids_def split: sum.splits exn.splits)
  have 4: "init_commands w (a\<lparr>watch_new := b\<rparr>) ps = init_commands w a ps" for ps
    by (simp add: init_commands_def)
  have r: "resolve w (a\<lparr>watch_new := b\<rparr>) = resolve w a"
    by (simp add: resolve_def 1 2 3 4)
  have s: "startup w (a\<lparr>watch_new := b\<rparr>) = startup w a"
  proof (cases "resolve w a")
    case (Pair es x)
    show ?thesis
    proof (cases x)
      case (Next y)
      obtain comms rs ps where y: "y = (comms, rs, ps)" by (cases y)
      from resolve_no_patterns [OF Pair [unfolded Next y] assms] have "rs = []" by simp
      with Pair Next y r show ?thesis
        by (simp add: startup_def watch_new_effective_def)
    next
      case (Exit k)
      with Pair r show ?thesis by (simp add: startup_def)
    next
      case (Uncaught e)
      with Pair r show ?thesis by (simp add: startup_def)
    qed
  qed
  show ?thesis by (simp add: main_def s)
qed

lemma startup_nothing_given:
  assumes "command a = []" "pid a = []"
  shows "\<exists>es. startup w a = (es, Exit (if channel_fails w a then 1 else 0))"
proof (cases "channel_fails w a")
  case True
  from resolve_channel_fails [OF True] show ?thesis
    by (auto simp: startup_def True)
next
  case False
  from channels_load [OF False] obtain c1 c2 where "load_email w a [] = ([], Next c1)"
    "load_dbus_notify w a c1 = ([], Next c2)" by blast
  with assms have "resolve w a = ([], Next (c2, [], []))"
    by (simp add: resolve_def init_pids_def init_commands_def)
  with False show ?thesis
    by (simp add: startup_def report_watching_def watch_new_effective_def)
qed

subsection \<open>A send that raises\<close>

lemma scan_raises:
  assumes "(k, h) \<in> set ps" "\<not> check w t h" "\<not> list_all (\<lambda>c. send_ok w t c h) comms"
  shows "\<exists>es c. scan w q comms t ps td = (es, Uncaught (SendError c))"
  using assms(1)
proof (induction ps arbitrary: td)
  case Nil
  then show ?case by simp
next
  case (Cons e rest)
  obtain k0 h0 where e: "e = (k0, h0)" by (cases e)
  show ?case
  proof (cases "check w t h0")
    case True
    with Cons.prems e assms(2) have "(k, h) \<in> set rest" by auto
    from Cons.IH [OF this, of td] True e show ?thesis by simp
  next
    case False
    show ?thesis
    proof (cases "list_all (\<lambda>c. send_ok w t c h0) comms")
      case True
      with Cons.prems e assms(3) have "(k, h) \<in> set rest" by auto
      from Cons.IH [OF this, of "td @ [k0]"] obtain es c where
        "scan w q comms t rest (td @ [k0]) = (es, Uncaught (SendError c))" by blast
      with scan_dead_step [OF False True, of q k0 rest td] e show ?thesis by simp
    next
      case nok: False
      from scan_dead_fail [OF False nok, of q k0 rest td] e show ?thesis by simp
    qed
  qed
qed

lemma tick_raises:
  assumes "scan w q comms t (processes s) (to_delete s) = (es, Uncaught x)"
  shows "tick w q comms wn rs t s = (es, Uncaught x)
       \<and> poll_loop w q comms wn rs (Suc n) t s = (es, Uncaught x)"
  using assms by (simp add: tick_def scan_and_remove_def)

subsection \<open>A matched process that is gone\<close>







subsection \<open>After a process has ended\<close>

lemma send_all_events:
  assumes "send_all w t comms h = (es, r)" "Send c h' \<in> set es"
  shows "h' = h"
  using assms
proof (induction comms arbitrary: es r)
  case Nil
  then show ?case by simp
next
  case (Cons c0 cs)
  show ?case
  proof (cases "send_ok w t c0 h")
    case True
    obtain es1 r1 where s1: "send_all w t cs h = (es1, r1)" by (cases "send_all w t cs h")
    with True Cons.prems have "es = Send c0 h # es1" by simp
    with Cons.prems(2) have "h' = h \<or> Send c h' \<in> set es1" by auto
    with Cons.IH [OF s1] show ?thesis by blast
  next
    case False
    with Cons.prems show ?thesis by auto
  qed
qed

lemma scan_events:
  assumes "scan w q comms t ps td = (es, r)" "Send c h' \<in> set es"
  shows "\<exists>k'. (k', h') \<in> set ps"
  using assms
proof (induction ps arbitrary: td es r)
  case Nil
  then show ?case by simp
next
  case (Cons e rest)
  obtain k h where e: "e = (k, h)" by (cases e)
  show ?case
  proof (cases "check w t h")
    case True
    with Cons.prems e have "scan w q comms t rest td = (es, r)" by simp
    from Cons.IH [OF this Cons.prems(2)] show ?thesis by auto
  next
    case False
    obtain es1 r1 where sa: "send_all w t comms h = (es1, r1)"
      by (cases "send_all w t comms h")
    obtain es2 r2 where sc: "scan w q comms t rest (td @ [k]) = (es2, r2)"
      by (cases "scan w q comms t rest (td @ [k])")
    from False e Cons.prems(1) sa sc
    have "set es \<subseteq> set (print q Process_stopped) \<union> set (print q (Info h)) \<union> set es1 \<union> set es2"
      by (cases r1) (auto simp: and_then_unfold)
    with Cons.prems(2) have "Send c h' \<in> set es1 \<or> Send c h' \<in> set es2"
      by (auto simp: print_def split: if_splits)
    then show ?thesis
    proof
      assume "Send c h' \<in> set es1"
      from send_all_events [OF sa this] e show ?thesis by auto
    next
      assume "Send c h' \<in> set es2"
      from Cons.IH [OF sc this] show ?thesis by auto
    qed
  qed
qed

lemma apply_deletions_events: "fst (apply_deletions ps td) = []"
  by (simp add: apply_deletions_def split: sum.splits)

lemma filter_eq_single:
  assumes "x \<in> set xs" "distinct xs"
  shows "filter (\<lambda>e. e = x) xs = [x]"
  using assms
proof (induction xs)
  case Nil
  then show ?case by simp
next
  case (Cons y ys)
  show ?case
  proof (cases "y = x")
    case True
    with Cons.prems have "x \<notin> set ys" by simp
    then have "filter (\<lambda>e. e = x) ys = []" by (induction ys) auto
    with True show ?thesis by simp
  next
    case False
    with Cons show ?thesis by simp
  qed
qed

subsection \<open>An explicit PID that is gone\<close>



subsection \<open>How the loop ends\<close>


lemma discover_Uncaught:
  assumes "discover w q t pids ps = (es, Uncaught x)"
  shows "\<exists>p. p \<in> set pids \<and> x = NoProcessFound p \<and> os_process w t p = None"
  using assms
proof (induction pids arbitrary: ps es)
  case Nil
  then show ?case by simp
next
  case (Cons p0 rest)
  show ?case
  proof (cases "contains ps p0")
    case True
    with Cons.prems have "discover w q t rest ps = (es, Uncaught x)" by simp
    from Cons.IH [OF this] show ?thesis by auto
  next
    case False
    show ?thesis
    proof (cases "ProcessByPID w t p0")
      case (Inl e)
      then have "e = NoProcessFound p0" "os_process w t p0 = None"
        by (auto simp: ProcessByPID_def split: option.splits)
      with False Inl Cons.prems show ?thesis by auto
    next
      case (Inr h)
      obtain es1 r1 where d: "discover w q t rest (AList.update p0 h ps) = (es1, r1)"
        by (cases "discover w q t rest (AList.update p0 h ps)")
      with False Inr Cons.prems have "r1 = Uncaught x" by simp
      with d Cons.IH [of "AList.update p0 h ps" es1] show ?thesis by auto
    qed
  qed
qed

lemma discover_total:
  assumes "\<forall>p \<in> set pids. os_process w t p \<noteq> None"
  shows "\<exists>es ps'. discover w q t pids ps = (es, Next ps')"
proof (cases "discover w q t pids ps")
  case (Pair es r)
  show ?thesis
  proof (cases r)
    case (Next ps')
    with Pair show ?thesis by simp
  next
    case (Exit k)
    with Pair discover_not_Exit [of w q t pids ps k] show ?thesis by simp
  next
    case (Uncaught x)
    with Pair discover_Uncaught [of w q t pids ps es x] assms show ?thesis by auto
  qed
qed







subsection \<open>A removed identity\<close>

lemma discover_no_send: "Send c h \<notin> set (fst (discover w q t pids ps))"
proof (induction pids arbitrary: ps)
  case Nil
  show ?case by simp
next
  case (Cons p0 rest)
  show ?case
  proof (cases "contains ps p0")
    case True
    with Cons show ?thesis by simp
  next
    case False
    show ?thesis
    proof (cases "ProcessByPID w t p0")
      case (Inl e)
      with False show ?thesis by simp
    next
      case (Inr h0)
      with False Cons [of "AList.update p0 h0 ps"] show ?thesis
        by (auto simp: and_then_unfold print_def split: prod.splits)
    qed
  qed
qed

lemma discover_keys:
  assumes "discover w q t pids ps = (es, Next ps')"
  shows "fst ` set ps' \<subseteq> fst ` set ps \<union> set pids"
  using assms
proof (induction pids arbitrary: ps es)
  case Nil
  then show ?case by simp
next
  case (Cons p0 rest)
  show ?case
  proof (cases "contains ps p0")
    case True
    with Cons.prems have "discover w q t rest ps = (es, Next ps')" by simp
    from Cons.IH [OF this] show ?thesis by auto
  next
    case False
    with Cons.prems obtain h es' where
      d: "discover w q t rest (AList.update p0 h ps) = (es', Next ps')"
      by (auto split: sum.splits prod.splits)
    from Cons.IH [OF d] have "fst ` set ps' \<subseteq> fst ` set (AList.update p0 h ps) \<union> set rest" .
    then show ?thesis by (auto simp: AList.dom_update)
  qed
qed

lemma scan_and_remove_events:
  assumes "scan_and_remove w q comms t s = (es, r)" "Send c h' \<in> set es"
  shows "\<exists>k'. (k', h') \<in> set (processes s)"
proof -
  obtain es1 r1 where sc: "scan w q comms t (processes s) (to_delete s) = (es1, r1)"
    by (cases "scan w q comms t (processes s) (to_delete s)")
  have "fst (scan_and_remove w q comms t s) = es1"
    using sc apply_deletions_events [of "processes s"]
    by (cases r1) (auto simp: scan_and_remove_def and_then_unfold)
  with assms have "Send c h' \<in> set es1" by simp
  from scan_events [OF sc this] show ?thesis .
qed

lemma loop_tail_no_send: "Send c h \<notin> set (fst (loop_tail w q wn rs t s))"
  using discover_no_send [of c h w q t "pids_with_command_name w t rs" "processes s"]
  by (auto simp: loop_tail_def and_then_unfold split: flow.splits)

lemma tick_events:
  assumes "tick w q comms wn rs t s = (es, r)" "Send c h' \<in> set es"
  shows "\<exists>k'. (k', h') \<in> set (processes s)"
proof -
  obtain e1 r1 where sr: "scan_and_remove w q comms t s = (e1, r1)"
    by (cases "scan_and_remove w q comms t s")
  show ?thesis
  proof (cases "Send c h' \<in> set e1")
    case True
    from scan_and_remove_events [OF sr True] show ?thesis .
  next
    case False
    have "\<exists>s1. set es \<subseteq> set e1 \<union> set (fst (loop_tail w q wn rs t s1))"
      using assms(1) sr by (cases r1) (auto simp: tick_def and_then_unfold)
    with assms(2) False loop_tail_no_send show ?thesis by blast
  qed
qed

lemma tick_keys:
  assumes "tick w q comms wn rs t s = (es, Next s')"
  shows "fst ` set (processes s') \<subseteq> fst ` set (processes s)
       \<union> (if wn then set (pids_with_command_name w t rs) else {})"
proof -
  from assms obtain e1 s1 e2 where sr: "scan_and_remove w q comms t s = (e1, Next s1)"
    and lt: "loop_tail w q wn rs t s1 = (e2, Next s')"
    unfolding tick_def by (auto simp: and_then_eq_Next)
  from sr obtain td e3 where "apply_deletions (processes s) td = (e3, Next s1)"
    unfolding scan_and_remove_def by (auto simp: and_then_eq_Next)
  from apply_deletions_to_delete [OF this] have sub: "set (processes s1) \<subseteq> set (processes s)"
    by auto
  show ?thesis
  proof (cases wn)
    case True
    with lt obtain ps' es' where
      d: "discover w q t (pids_with_command_name w t rs) (processes s1) = (es', Next ps')"
      and s': "s' = s1\<lparr>processes := ps'\<rparr>"
      by (auto simp: loop_tail_def and_then_eq_Next)
    from discover_keys [OF d] s' sub True show ?thesis by auto
  next
    case False
    with lt have "s' = s1" by (auto simp: loop_tail_def split: if_splits)
    with sub False show ?thesis by auto
  qed
qed

lemma poll_loop_absent:
  assumes "poll_loop w q comms wn rs n t s = (es, r)" "state_ok s"
    and "\<not> contains (processes s) k"
    and "wn \<longrightarrow> (\<forall>i<n. k \<notin> set (pids_with_command_name w (t + i) rs))"
  shows "(\<forall>c h'. Send c h' \<in> set es \<longrightarrow> identity h' \<noteq> k)
       \<and> (\<forall>s'. r = Next s' \<longrightarrow> \<not> contains (processes s') k)"
  using assms
proof (induction n arbitrary: t s es r)
  case 0
  then show ?case by auto
next
  case (Suc n)
  obtain e1 r1 where tk: "tick w q comms wn rs t s = (e1, r1)"
    by (cases "tick w q comms wn rs t s")
  have now: "identity h' \<noteq> k" if "Send c h' \<in> set e1" for c h'
  proof -
    from tick_events [OF tk that] obtain k' where k': "(k', h') \<in> set (processes s)" ..
    with Suc.prems(2) have "identity h' = k'"
      by (auto simp: state_ok_def watch_ok_def list_all_iff)
    moreover from k' Suc.prems(3) have "k' \<noteq> k" by (force simp: contains_def)
    ultimately show ?thesis by simp
  qed
  show ?case
  proof (cases r1)
    case (Next s1)
    obtain e2 r2 where pl: "poll_loop w q comms wn rs n (Suc t) s1 = (e2, r2)"
      by (cases "poll_loop w q comms wn rs n (Suc t) s1")
    with tk Next Suc.prems(1) have es: "es = e1 @ e2" and r: "r = r2" by simp_all
    from tick_ok [OF tk [unfolded Next] Suc.prems(2)] have ok1: "state_ok s1" .
    have "wn \<longrightarrow> k \<notin> set (pids_with_command_name w t rs)"
      using Suc.prems(4) by force
    with tick_keys [OF tk [unfolded Next]] Suc.prems(3) have absent1: "\<not> contains (processes s1) k"
      by (auto simp: contains_def split: if_splits)
    have later: "wn \<longrightarrow> (\<forall>i<n. k \<notin> set (pids_with_command_name w (Suc t + i) rs))"
    proof (intro impI allI)
      fix i assume wn "i < n"
      then have "Suc i < Suc n" by simp
      with Suc.prems(4) \<open>wn\<close> have "k \<notin> set (pids_with_command_name w (t + Suc i) rs)" by blast
      then show "k \<notin> set (pids_with_command_name w (Suc t + i) rs)" by simp
    qed
    from Suc.IH [OF pl ok1 absent1 later] now es r show ?thesis by auto
  next
    case (Exit st)
    with tk Suc.prems(1) have "es = e1" "r = Exit st" by simp_all
    with now show ?thesis by simp
  next
    case (Uncaught x)
    with tk Suc.prems(1) have "es = e1" "r = Uncaught x" by simp_all
    with now show ?thesis by simp
  qed
qed

section \<open>The claims\<close>

text \<open>
  Claim C1, as stated: every registered sink is invoked for every termination event, and
  a delivery failure raised by one sink neither keeps the remaining sinks from being tried
  nor aborts the loop.  The script has no \<^verbatim>\<open>try\<close> around \<^verbatim>\<open>comm.send\<close> (lines 126--127).
  With the email module and the desktop notification module both loaded and a mail server
  that refuses, process 100 ends in tick 2: \<^verbatim>\<open>send\<close> of the email module is called and
  raises, \<^verbatim>\<open>send\<close> of the desktop notification module is never called, and the run ends
  with the exception.
\<close>

theorem failing_sink_counterexample:
  "send_all flaky_mail_world 2 office_comms sleep_100
     = ([Send (Email [''ops@example.org'']) sleep_100],
        Uncaught (SendError (Email [''ops@example.org''])))
   \<and> main flaky_mail_world two_pid_args 2
     = ([Send (Email [''ops@example.org'']) sleep_100],
        Uncaught (SendError (Email [''ops@example.org''])))"
  by code_simp

text \<open>
  Claim C1, amended.  For a termination event the sinks are invoked in the order in which
  they were registered, up to and including the first whose \<^verbatim>\<open>send\<close> raises; when none
  raises, every sink is invoked once, and a scan that completes has invoked every sink once
  for every process found ended.  A delivery failure is not caught: the sinks after it are
  not invoked for that event, and the exception leaves the tick and the loop.
\<close>

theorem sends_in_order_until_one_raises:
  "send_all w t comms h =
     (map (\<lambda>c. Send c h) (takeWhile (\<lambda>c. send_ok w t c h) comms)
        @ (case dropWhile (\<lambda>c. send_ok w t c h) comms of [] \<Rightarrow> [] | c # cs \<Rightarrow> [Send c h]),
      case dropWhile (\<lambda>c. send_ok w t c h) comms of
        [] \<Rightarrow> Next ()
      | c # cs \<Rightarrow> Uncaught (SendError c))
   \<and> (list_all (\<lambda>c. send_ok w t c h) comms \<longrightarrow>
        send_all w t comms h = (map (\<lambda>c. Send c h) comms, Next ()))
   \<and> (scan w q comms t ps td = (es, Next td') \<longrightarrow>
        sends es = notifications comms (filter (dead w t) ps))
   \<and> ((k, h) \<in> set (processes s) \<and> \<not> check w t h
        \<and> \<not> list_all (\<lambda>c. send_ok w t c h) comms \<longrightarrow>
        (\<exists>es' c. tick w q comms wn rs t s = (es', Uncaught (SendError c))
                \<and> poll_loop w q comms wn rs (Suc n) t s = (es', Uncaught (SendError c))))"
proof -
  have 4: "\<exists>es' c. tick w q comms wn rs t s = (es', Uncaught (SendError c))
                \<and> poll_loop w q comms wn rs (Suc n) t s = (es', Uncaught (SendError c))"
    if "(k, h) \<in> set (processes s)" "\<not> check w t h"
      "\<not> list_all (\<lambda>c. send_ok w t c h) comms"
  proof -
    from scan_raises [OF that, of q "to_delete s"] obtain es' c where
      "scan w q comms t (processes s) (to_delete s) = (es', Uncaught (SendError c))" by blast
    from tick_raises [OF this] show ?thesis by blast
  qed
  from send_all_result [of w t comms h] send_all_ok [of w t h comms]
    scan_Next [of w q comms t ps td es td'] 4
  show ?thesis by blast
qed

theorem sends_in_order_until_one_raises_witness:
  "list_all (\<lambda>c. send_ok office_world 2 c sleep_100) office_comms
   \<and> send_all office_world 2 office_comms sleep_100
     = ([Send (Email [''ops@example.org'']) sleep_100, Send Dbus_notify sleep_100], Next ())
   \<and> (100, sleep_100) \<in> set [(100 :: int, sleep_100), (200, worker_200)]
   \<and> \<not> check flaky_mail_world 2 sleep_100
   \<and> \<not> list_all (\<lambda>c. send_ok flaky_mail_world 2 c sleep_100) office_comms
   \<and> (\<exists>es' c. tick flaky_mail_world True office_comms False [''worker''] 2
        \<lparr>processes = [(100, sleep_100), (200, worker_200)], to_delete = []\<rparr>
     = (es', Uncaught (SendError c)))
   \<and> snd (tick flaky_mail_world True office_comms False [''worker''] 2
        \<lparr>processes = [(100, sleep_100), (200, worker_200)], to_delete = []\<rparr>)
     = Uncaught (SendError (Email [''ops@example.org'']))"
proof -
  have a: "list_all (\<lambda>c. send_ok office_world 2 c sleep_100) office_comms"
    by (simp add: office_world_def office_comms_def)
  have b: "\<not> check flaky_mail_world 2 sleep_100"
    by (simp add: check_def flaky_mail_world_def office_world_def sleep_100_def)
  have c: "\<not> list_all (\<lambda>c. send_ok flaky_mail_world 2 c sleep_100) office_comms"
    by (simp add: flaky_mail_world_def office_world_def office_comms_def)
  have d: "snd (tick flaky_mail_world True office_comms False [''worker''] 2
        \<lparr>processes = [(100, sleep_100), (200, worker_200)], to_delete = []\<rparr>)
     = Uncaught (SendError (Email [''ops@example.org'']))"
    by code_simp
  from sends_in_order_until_one_raises [where w = office_world and t = 2
      and comms = office_comms and h = sleep_100] a
  have e: "send_all office_world 2 office_comms sleep_100
     = (map (\<lambda>c. Send c sleep_100) office_comms, Next ())"
    by blast
  have mem: "(100, sleep_100)
      \<in> set (processes \<lparr>processes = [(100, sleep_100), (200, worker_200)], to_delete = []\<rparr>)"
    by simp
  from mem sends_in_order_until_one_raises [where w = flaky_mail_world and t = 2
      and comms = office_comms and h = sleep_100 and k = 100 and q = True and wn = False
      and rs = "[''worker'']" and n = 0 and ps = "[]" and td = "[]" and es = "[]" and td' = "[]"
      and s = "\<lparr>processes = [(100, sleep_100), (200, worker_200)], to_delete = []\<rparr>"] b c
  have f: "\<exists>es' c. tick flaky_mail_world True office_comms False [''worker''] 2
        \<lparr>processes = [(100, sleep_100), (200, worker_200)], to_delete = []\<rparr>
     = (es', Uncaught (SendError c))"
    by blast
  from a b c d e f show ?thesis by (simp add: office_comms_def)
qed




text \<open>
  Claim C3, as stated: a process found ended in a tick gets exactly one notification per
  registered sink in that tick, its identity is removed after the scan, and the identity is
  never checked or notified again.  Two runs of the script say otherwise.  With discovery
  on, PID 7 ends in tick 1, is notified and removed, and the discovery step of the same
  tick watches PID 7 again (a new process with the old PID): it is checked and notified
  again in tick 2.  With a mail server that refuses, process 100 ends in tick 2 and only
  the first of the two registered sinks is invoked.
\<close>

theorem ended_process_counterexample:
  "main respawn_world respawn_args 1
     = ([Send Dbus_notify (worker_7 0)], Next \<lparr>processes = [(7, worker_7 1)], to_delete = []\<rparr>)
   \<and> main respawn_world respawn_args 2
     = ([Send Dbus_notify (worker_7 0), Send Dbus_notify (worker_7 1)],
        Next \<lparr>processes = [(7, worker_7 2)], to_delete = []\<rparr>)
   \<and> main flaky_mail_world two_pid_args 1
     = ([], Next \<lparr>processes = [(100, sleep_100), (200, worker_200)], to_delete = []\<rparr>)
   \<and> sends (fst (main flaky_mail_world two_pid_args 2))
     = [Send (Email [''ops@example.org'']) sleep_100]"
  by code_simp

text \<open>
  Claim C3, amended.  At the head of the loop, for a watched process whose check reports
  it ended in a tick in which no \<^verbatim>\<open>send\<close> raises: the scan and the removals complete, the
  sends of the tick are one per registered sink for each process found ended, in order,
  the identity being one of them exactly once; the identity is removed after the scan,
  together with the other ended ones, and the rest stays.  From then on, for as long as
  the discovery step does not yield the identity again (always, when discovery is off), no
  send is for a handle of that identity and the identity is in no watch set.
\<close>

theorem ended_process_notified_then_dropped:
  assumes "state_ok s"
    and "(k, h) \<in> set (processes s)" and "\<not> check w t h"
    and "\<forall>e \<in> set (processes s). dead w t e \<longrightarrow> list_all (\<lambda>c. send_ok w t c (snd e)) comms"
  shows "\<exists>es s1. scan_and_remove w q comms t s = (es, Next s1)
       \<and> sends es = notifications comms (filter (dead w t) (processes s))
       \<and> filter (\<lambda>e. fst e = k) (filter (dead w t) (processes s)) = [(k, h)]
       \<and> processes s1 = filter (\<lambda>e. \<not> dead w t e) (processes s) \<and> to_delete s1 = []
       \<and> \<not> contains (processes s1) k
       \<and> (\<forall>wn n es' r.
            (wn \<longrightarrow> (\<forall>i\<le>n. k \<notin> set (pids_with_command_name w (t + i) rs))) \<longrightarrow>
            poll_loop w q comms wn rs (Suc n) t s = (es', r) \<longrightarrow>
            (\<exists>es2. es' = es @ es2 \<and> (\<forall>c h'. Send c h' \<in> set es2 \<longrightarrow> identity h' \<noteq> k))
            \<and> (\<forall>s2. r = Next s2 \<longrightarrow> \<not> contains (processes s2) k))"
proof -
  from assms(1) have d: "distinct (map fst (processes s))" and td: "to_delete s = []"
    by (simp_all add: state_ok_def watch_ok_def)
  define s1 where "s1 = \<lparr>processes = filter (\<lambda>e. \<not> dead w t e) (processes s), to_delete = []\<rparr>"
  from scan_all_delivered [OF assms(4), of q "to_delete s"] obtain es where
    sc: "scan w q comms t (processes s) (to_delete s)
      = (es, Next (to_delete s @ map fst (filter (dead w t) (processes s))))" ..
  from scan_and_remove_runs [OF sc d td]
  have sr: "scan_and_remove w q comms t s = (es, Next s1)" by (simp add: s1_def)
  from scan_and_remove_Next [OF sr d td]
  have sn: "sends es = notifications comms (filter (dead w t) (processes s))" by simp
  have dk: "dead w t (k, h)" using assms(3) by (simp add: dead_def)
  have uniq: "e = (k, h)" if "e \<in> set (processes s)" "fst e = k" for e
  proof -
    from d have "inj_on fst (set (processes s))" by (simp add: distinct_map)
    from inj_onD [OF this _ that(1) assms(2)] that(2) show ?thesis by simp
  qed
  have one: "filter (\<lambda>e. fst e = k) (filter (dead w t) (processes s)) = [(k, h)]"
  proof -
    have "filter (\<lambda>e. dead w t e \<and> fst e = k) (processes s)
        = filter (\<lambda>e. e = (k, h)) (processes s)"
    proof (rule filter_cong [OF refl])
      fix e assume e: "e \<in> set (processes s)"
      show "(dead w t e \<and> fst e = k) = (e = (k, h))"
      proof
        assume "dead w t e \<and> fst e = k"
        with uniq [OF e] show "e = (k, h)" by simp
      next
        assume "e = (k, h)"
        with dk show "dead w t e \<and> fst e = k" by simp
      qed
    qed
    moreover from d have "distinct (processes s)" by (simp add: distinct_map)
    with assms(2) have "filter (\<lambda>e. e = (k, h)) (processes s) = [(k, h)]"
      by (rule filter_eq_single)
    ultimately show ?thesis by (simp only: filter_filter)
  qed
  have gone: "\<not> contains (processes s1) k"
  proof
    assume "contains (processes s1) k"
    then obtain e where e: "e \<in> set (processes s)" "\<not> dead w t e" "fst e = k"
      by (auto simp: contains_def s1_def)
    from uniq [OF e(1,3)] e(2) dk show False by simp
  qed
  from assms(1) have ok1: "state_ok s1"
    by (simp add: s1_def state_ok_def watch_ok_filter)
  have later: "(\<exists>es2. es' = es @ es2 \<and> (\<forall>c h'. Send c h' \<in> set es2 \<longrightarrow> identity h' \<noteq> k))
      \<and> (\<forall>s2. r = Next s2 \<longrightarrow> \<not> contains (processes s2) k)"
    if m: "wn \<longrightarrow> (\<forall>i\<le>n. k \<notin> set (pids_with_command_name w (t + i) rs))"
      and pl: "poll_loop w q comms wn rs (Suc n) t s = (es', r)" for wn n es' r
  proof -
    obtain e2 r2 where lt: "loop_tail w q wn rs t s1 = (e2, r2)"
      by (cases "loop_tail w q wn rs t s1")
    have e2: "Send c h' \<notin> set e2" for c h'
      using loop_tail_no_send [of c h' w q wn rs t s1] lt by simp
    from sr lt have tk: "tick w q comms wn rs t s = (es @ e2, r2)" by (simp add: tick_def)
    show ?thesis
    proof (cases r2)
      case (Next s1')
      obtain e3 r3 where p3: "poll_loop w q comms wn rs n (Suc t) s1' = (e3, r3)"
        by (cases "poll_loop w q comms wn rs n (Suc t) s1'")
      with tk Next pl have es': "es' = es @ e2 @ e3" and r: "r = r3" by simp_all
      from loop_tail_ok [OF lt [unfolded Next] ok1] have ok': "state_ok s1'" .
      have absent: "\<not> contains (processes s1') k"
      proof (cases wn)
        case True
        with lt Next obtain ps' es0 where
          dc: "discover w q t (pids_with_command_name w t rs) (processes s1) = (es0, Next ps')"
          and s1': "s1' = s1\<lparr>processes := ps'\<rparr>"
          by (auto simp: loop_tail_def and_then_eq_Next)
        from m True have "k \<notin> set (pids_with_command_name w t rs)" by force
        with discover_keys [OF dc] gone s1' show ?thesis by (auto simp: contains_def)
      next
        case False
        with lt Next have "s1' = s1" by (auto simp: loop_tail_def split: if_splits)
        with gone show ?thesis by simp
      qed
      have shifted: "wn \<longrightarrow> (\<forall>i<n. k \<notin> set (pids_with_command_name w (Suc t + i) rs))"
      proof (intro impI allI)
        fix i assume wn "i < n"
        then have "Suc i \<le> n" by simp
        with m \<open>wn\<close> have "k \<notin> set (pids_with_command_name w (t + Suc i) rs)" by blast
        then show "k \<notin> set (pids_with_command_name w (Suc t + i) rs)" by simp
      qed
      from poll_loop_absent [OF p3 ok' absent shifted] e2 es' r show ?thesis by auto
    next
      case (Exit st)
      with tk pl have "es' = es @ e2" "r = Exit st" by simp_all
      with e2 show ?thesis by auto
    next
      case (Uncaught x)
      with tk pl have "es' = es @ e2" "r = Uncaught x" by simp_all
      with e2 show ?thesis by auto
    qed
  qed
  have p1: "processes s1 = filter (\<lambda>e. \<not> dead w t e) (processes s)" "to_delete s1 = []"
    by (simp_all add: s1_def)
  from sr sn one p1 gone later show ?thesis by blast
qed

theorem ended_process_notified_then_dropped_witness:
  "state_ok \<lparr>processes = [(100, sleep_100), (200, worker_200)], to_delete = []\<rparr>
   \<and> (100, sleep_100) \<in> set [(100 :: int, sleep_100), (200, worker_200)]
   \<and> \<not> check office_world 2 sleep_100
   \<and> list_all (\<lambda>e. dead office_world 2 e \<longrightarrow>
          list_all (\<lambda>c. send_ok office_world 2 c (snd e)) office_comms)
        [(100, sleep_100), (200, worker_200)]
   \<and> scan_and_remove office_world True office_comms 2
        \<lparr>processes = [(100, sleep_100), (200, worker_200)], to_delete = []\<rparr>
      = ([Send (Email [''ops@example.org'']) sleep_100, Send Dbus_notify sleep_100],
         Next \<lparr>processes = [(200, worker_200)], to_delete = []\<rparr>)
   \<and> (\<exists>es s1. scan_and_remove office_world True office_comms 2
          \<lparr>processes = [(100, sleep_100), (200, worker_200)], to_delete = []\<rparr> = (es, Next s1)
        \<and> sends es = notifications office_comms [(100, sleep_100)]
        \<and> \<not> contains (processes s1) 100)
   \<and> list_all (\<lambda>i. 100 \<notin> set (pids_with_command_name office_world (2 + i) [''worker'']))
        [0, 1]
   \<and> poll_loop office_world True office_comms True [''worker''] 2 2
        \<lparr>processes = [(100, sleep_100), (200, worker_200)], to_delete = []\<rparr>
      = ([Send (Email [''ops@example.org'']) sleep_100, Send Dbus_notify sleep_100,
          Send (Email [''ops@example.org'']) worker_200, Send Dbus_notify worker_200],
         Next \<lparr>processes = [], to_delete = []\<rparr>)
   \<and> (\<exists>es2. [Send (Email [''ops@example.org'']) sleep_100, Send Dbus_notify sleep_100,
          Send (Email [''ops@example.org'']) worker_200, Send Dbus_notify worker_200]
        = [Send (Email [''ops@example.org'']) sleep_100, Send Dbus_notify sleep_100] @ es2
        \<and> list_all (\<lambda>e. \<forall>c h'. e = Send c h' \<longrightarrow> identity h' \<noteq> 100) es2)"
proof -
  let ?s = "\<lparr>processes = [(100, sleep_100), (200, worker_200)], to_delete = []\<rparr>"
  let ?e1 = "[Send (Email [''ops@example.org'']) sleep_100, Send Dbus_notify sleep_100]"
  let ?e = "[Send (Email [''ops@example.org'']) sleep_100, Send Dbus_notify sleep_100,
          Send (Email [''ops@example.org'']) worker_200, Send Dbus_notify worker_200]"
  have ok: "state_ok ?s"
    by (simp add: state_ok_def watch_ok_def sleep_100_def worker_200_def)
  have m: "(100, sleep_100) \<in> set (processes ?s)" by simp
  have c: "\<not> check office_world 2 sleep_100"
    by (simp add: check_def office_world_def sleep_100_def)
  have d: "\<forall>e \<in> set (processes ?s). dead office_world 2 e \<longrightarrow>
      list_all (\<lambda>c. send_ok office_world 2 c (snd e)) office_comms"
    by (simp add: office_world_def office_comms_def)
  have f: "filter (dead office_world 2) (processes ?s) = [(100, sleep_100)]"
    by (simp add: dead_def check_def office_world_def sleep_100_def worker_200_def)
  have v: "scan_and_remove office_world True office_comms 2 ?s
      = (?e1, Next \<lparr>processes = [(200, worker_200)], to_delete = []\<rparr>)"
    by code_simp
  have p: "poll_loop office_world True office_comms True [''worker''] 2 2 ?s
      = (?e, Next \<lparr>processes = [], to_delete = []\<rparr>)"
    by code_simp
  have p': "poll_loop office_world True office_comms True [''worker''] (Suc 1) 2 ?s
      = (?e, Next \<lparr>processes = [], to_delete = []\<rparr>)"
    using p by (simp only: numeral_2_eq_2 One_nat_def)
  have nm: "True \<longrightarrow> (\<forall>i\<le>1. 100 \<notin> set (pids_with_command_name office_world (2 + i) [''worker'']))"
    by (simp add: pids_with_command_name_def office_world_def)
  from ended_process_notified_then_dropped [OF ok m c d, of True "[''worker'']"]
  obtain es s1 where 1: "scan_and_remove office_world True office_comms 2 ?s = (es, Next s1)"
    and 2: "sends es = notifications office_comms (filter (dead office_world 2) (processes ?s))"
    and 3: "\<not> contains (processes s1) 100"
    and 4: "\<And>wn n es' r.
        (wn \<longrightarrow> (\<forall>i\<le>n. 100 \<notin> set (pids_with_command_name office_world (2 + i) [''worker''])))
        \<Longrightarrow> poll_loop office_world True office_comms wn [''worker''] (Suc n) 2 ?s = (es', r)
        \<Longrightarrow> (\<exists>es2. es' = es @ es2 \<and> (\<forall>c h'. Send c h' \<in> set es2 \<longrightarrow> identity h' \<noteq> 100))
          \<and> (\<forall>s2. r = Next s2 \<longrightarrow> \<not> contains (processes s2) 100)"
    by blast
  from 1 v have es: "es = ?e1" by simp
  from 4 [OF nm p'] es obtain es2 where e2: "?e = ?e1 @ es2"
    and ne: "\<forall>c h'. Send c h' \<in> set es2 \<longrightarrow> identity h' \<noteq> 100" by blast
  from ne have "list_all (\<lambda>e. \<forall>c h'. e = Send c h' \<longrightarrow> identity h' \<noteq> 100) es2"
    by (auto simp: list_all_iff)
  with e2 have x: "\<exists>es2. ?e = ?e1 @ es2
      \<and> list_all (\<lambda>e. \<forall>c h'. e = Send c h' \<longrightarrow> identity h' \<noteq> 100) es2" by blast
  from 1 2 3 f have y: "\<exists>es s1. scan_and_remove office_world True office_comms 2 ?s = (es, Next s1)
        \<and> sends es = notifications office_comms [(100, sleep_100)]
        \<and> \<not> contains (processes s1) 100"
    by auto
  have z: "list_all (\<lambda>i. 100 \<notin> set (pids_with_command_name office_world (2 + i) [''worker'']))
        [0, 1]"
    by (simp add: pids_with_command_name_def office_world_def)
  from ok c d v p x y z show ?thesis by (simp add: list_all_iff)
qed




text \<open>
  Claim C5.  Every start-up failure aborts the whole run with exit status 1 before the
  poll loop begins: when a requested communication module does not load, or a PID given
  with \<^verbatim>\<open>--pid\<close> is not a running process, start-up itself ends with \<open>Exit 1\<close>, the run
  is that same exit however many ticks it is given, and no \<^verbatim>\<open>send\<close> is called.
\<close>

theorem startup_failure_aborts:
  assumes "channel_fails w a \<or> explicit_pid_missing w a"
  shows "\<exists>es. startup w a = (es, Exit 1) \<and> (\<forall>n. main w a n = (es, Exit 1)) \<and> sends es = []"
proof -
  from assms obtain es where "resolve w a = (es, Exit 1)" "sends es = []"
    using resolve_channel_fails resolve_explicit_pid_missing by blast
  then show ?thesis by (auto simp: startup_def main_def)
qed

theorem startup_failure_aborts_witness:
  "explicit_pid_missing idle_world gone_pid_args
   \<and> startup idle_world gone_pid_args = ([Stdout (No_process_with_PID 4242)], Exit 1)
   \<and> main idle_world gone_pid_args 3 = ([Stdout (No_process_with_PID 4242)], Exit 1)
   \<and> channel_fails no_notify2_world no_match_args
   \<and> startup no_notify2_world no_match_args = ([Logged Notify2_not_installed], Exit 1)
   \<and> main no_notify2_world no_match_args 3 = ([Logged Notify2_not_installed], Exit 1)"
proof -
  have h1: "explicit_pid_missing idle_world gone_pid_args"
    by (simp add: explicit_pid_missing_def idle_world_def gone_pid_args_def)
  have h2: "channel_fails no_notify2_world no_match_args"
    by (simp add: channel_fails_def no_notify2_world_def idle_world_def no_match_args_def)
  have s1: "startup idle_world gone_pid_args = ([Stdout (No_process_with_PID 4242)], Exit 1)"
    by (simp add: startup_def resolve_def idle_world_def gone_pid_args_def load_email_def
        load_dbus_notify_def init_pids_def add_process_def contains_def ProcessByPID_def print_def)
  have s2: "startup no_notify2_world no_match_args = ([Logged Notify2_not_installed], Exit 1)"
    by (simp add: startup_def resolve_def no_notify2_world_def idle_world_def no_match_args_def
        load_email_def load_dbus_notify_def)
  from startup_failure_aborts [of idle_world gone_pid_args] h1 s1
  have m1: "main idle_world gone_pid_args 3 = ([Stdout (No_process_with_PID 4242)], Exit 1)"
    by auto
  from startup_failure_aborts [of no_notify2_world no_match_args] h2 s2
  have m2: "main no_notify2_world no_match_args 3 = ([Logged Notify2_not_installed], Exit 1)"
    by auto
  from h1 h2 s1 s2 m1 m2 show ?thesis by simp
qed

text \<open>
  Claim C6.  \<^verbatim>\<open>--quiet\<close> never suppresses a notification: for the same surroundings,
  arguments and number of ticks, the run with \<^verbatim>\<open>--quiet\<close> and the run without it end the
  same way, call \<^verbatim>\<open>send\<close> with the same arguments in the same order, and agree on every
  event that is not a line of standard output.
\<close>

theorem quiet_changes_stdout_only:
  "snd (main w (a\<lparr>quiet := True\<rparr>) n) = snd (main w (a\<lparr>quiet := False\<rparr>) n)
   \<and> sends (fst (main w (a\<lparr>quiet := True\<rparr>) n)) = sends (fst (main w (a\<lparr>quiet := False\<rparr>) n))
   \<and> filter (\<lambda>e. \<not> is_stdout e) (fst (main w (a\<lparr>quiet := True\<rparr>) n))
     = filter (\<lambda>e. \<not> is_stdout e) (fst (main w (a\<lparr>quiet := False\<rparr>) n))"
proof -
  have h: "hush (main w (a\<lparr>quiet := True\<rparr>) n) = hush (main w (a\<lparr>quiet := False\<rparr>) n)"
    by (rule hush_main)
  then have "sends (fst (hush (main w (a\<lparr>quiet := True\<rparr>) n)))
      = sends (fst (hush (main w (a\<lparr>quiet := False\<rparr>) n)))" by simp
  then have "sends (fst (main w (a\<lparr>quiet := True\<rparr>) n))
      = sends (fst (main w (a\<lparr>quiet := False\<rparr>) n))" by (simp only: sends_hush)
  with h show ?thesis by (simp add: hush_def)
qed

theorem quiet_changes_stdout_only_witness:
  "sends (fst (main office_world (two_pid_args\<lparr>quiet := False\<rparr>) 3))
     = [Send (Email [''ops@example.org'']) sleep_100, Send Dbus_notify sleep_100,
        Send (Email [''ops@example.org'']) worker_200, Send Dbus_notify worker_200]
   \<and> snd (main office_world (two_pid_args\<lparr>quiet := False\<rparr>) 3) = Exit 0
   \<and> fst (main office_world (two_pid_args\<lparr>quiet := True\<rparr>) 3)
     = [Send (Email [''ops@example.org'']) sleep_100, Send Dbus_notify sleep_100,
        Send (Email [''ops@example.org'']) worker_200, Send Dbus_notify worker_200]
   \<and> length (fst (main office_world (two_pid_args\<lparr>quiet := False\<rparr>) 3)) = 11"
proof -
  have q: "main office_world (two_pid_args\<lparr>quiet := True\<rparr>) 3
     = ([Send (Email [''ops@example.org'']) sleep_100, Send Dbus_notify sleep_100,
         Send (Email [''ops@example.org'']) worker_200, Send Dbus_notify worker_200], Exit 0)"
    by code_simp
  have l: "length (fst (main office_world (two_pid_args\<lparr>quiet := False\<rparr>) 3)) = 11"
    by code_simp
  from quiet_changes_stdout_only [of office_world two_pid_args 3] q l show ?thesis
    by (simp add: sends_def)
qed

text \<open>
  Claim C7.  If the watch set is empty after the initial resolution and no discovery of new
  processes is needed, the run ends at once with exit status 0: start-up itself exits, so
  no tick is run however many the loop is given, and no \<^verbatim>\<open>send\<close> is called.
\<close>

theorem empty_watch_set_ends_run:
  assumes "resolve w a = (es, Next (comms, command_regexs, []))"
    and "\<not> watch_new_effective a command_regexs"
  shows "startup w a = (print (quiet a) No_processes_found, Exit 0)
       \<and> main w a n = (print (quiet a) No_processes_found, Exit 0)
       \<and> sends (fst (main w a n)) = []"
proof -
  have "es = []" using assms(1) by (rule resolve_Next_events)
  with assms have s: "startup w a = (print (quiet a) No_processes_found, Exit 0)"
    by (simp add: startup_def report_watching_def)
  then have "main w a n = (print (quiet a) No_processes_found, Exit 0)"
    by (simp add: main_def)
  with s show ?thesis by (simp add: sends_print)
qed

theorem empty_watch_set_ends_run_witness:
  "resolve idle_world no_match_args =
     ([], Next ([Email [''ops@example.org''], Dbus_notify], [''worker''], []))
   \<and> \<not> watch_new_effective no_match_args [''worker'']
   \<and> main idle_world no_match_args 5 = ([Stdout No_processes_found], Exit 0)"
proof -
  have r: "resolve idle_world no_match_args =
     ([], Next ([Email [''ops@example.org''], Dbus_notify], [''worker''], []))"
    by (simp add: resolve_def idle_world_def no_match_args_def load_email_def
        load_dbus_notify_def init_pids_def init_commands_def pids_with_command_name_def)
  have n: "\<not> watch_new_effective no_match_args [''worker'']"
    by (simp add: watch_new_effective_def no_match_args_def)
  from empty_watch_set_ends_run [OF r n, of 5] r n show ?thesis
    by (simp add: print_def no_match_args_def)
qed

text \<open>
  Claim C8.  Adding an identity that is already watched changes nothing, both in the
  start-up loops and in the discovery step; adding the same identity a second time
  changes nothing either; an add keeps the keys distinct and leaves exactly one entry for
  the identity; and whenever the run is at the head of the loop, the watch set holds at
  most one entry for any identity.
\<close>

theorem add_is_idempotent:
  "(contains ps p \<longrightarrow> add_process w t p ps = Inr ps \<and> discover w q t [p] ps = ([], Next ps))
   \<and> (add_process w t p ps = Inr ps' \<longrightarrow> add_process w t' p ps' = Inr ps')
   \<and> (add_process w t p ps = Inr ps' \<longrightarrow> distinct (map fst ps) \<longrightarrow>
        distinct (map fst ps') \<and> length (filter (\<lambda>e. fst e = p) ps') = 1)
   \<and> (main w a n = (es, Next s) \<longrightarrow> length (filter (\<lambda>e. fst e = p) (processes s)) \<le> 1)"
proof -
  have one: "distinct (map fst xs) \<Longrightarrow> length (filter (\<lambda>e. fst e = p) xs) \<le> 1" for xs :: watch
    by (induction xs) (force simp: filter_empty_conv)+
  have a: "contains ps p \<longrightarrow> add_process w t p ps = Inr ps \<and> discover w q t [p] ps = ([], Next ps)"
    by (simp add: add_process_def)
  have k: "add_process w t p ps = Inr ps' \<Longrightarrow> contains ps' p"
    using add_process_keys [of w t p ps ps'] by (simp add: contains_def)
  then have b: "add_process w t p ps = Inr ps' \<longrightarrow> add_process w t' p ps' = Inr ps'"
    by (simp add: add_process_def)
  have c: "distinct (map fst ps') \<and> length (filter (\<lambda>e. fst e = p) ps') = 1"
    if h: "add_process w t p ps = Inr ps'" and d: "distinct (map fst ps)"
  proof -
    from add_process_Inr [OF h] d have d1: "distinct (map fst ps')"
      by (auto simp: contains_def)
    from k [OF h] have "filter (\<lambda>e. fst e = p) ps' \<noteq> []"
      by (auto simp: contains_def filter_empty_conv)
    with one [OF d1] have "length (filter (\<lambda>e. fst e = p) ps') = 1"
      by (cases "filter (\<lambda>e. fst e = p) ps'") auto
    with d1 show ?thesis by simp
  qed
  have e: "main w a n = (es, Next s) \<longrightarrow> length (filter (\<lambda>e. fst e = p) (processes s)) \<le> 1"
    using main_ok [of w a n es s] one by (auto simp: state_ok_def watch_ok_def)
  from a b c e show ?thesis by blast
qed

theorem add_is_idempotent_witness:
  "contains [(100, sleep_100)] 100
   \<and> add_process office_world 0 100 [(100, sleep_100)] = Inr [(100, sleep_100)]
   \<and> discover office_world True 1 [100] [(100, sleep_100)] = ([], Next [(100, sleep_100)])
   \<and> add_process office_world 0 200 [(100, sleep_100)] = Inr [(100, sleep_100), (200, worker_200)]
   \<and> add_process office_world 1 200 [(100, sleep_100), (200, worker_200)]
       = Inr [(100, sleep_100), (200, worker_200)]
   \<and> distinct (map fst [(100 :: int, sleep_100), (200, worker_200)])
   \<and> length (filter (\<lambda>e. fst e = 200) [(100 :: int, sleep_100), (200, worker_200)]) = 1
   \<and> main office_world two_pid_args 1 =
       ([], Next \<lparr>processes = [(100, sleep_100), (200, worker_200)], to_delete = []\<rparr>)
   \<and> length (filter (\<lambda>e. fst e = 100) [(100 :: int, sleep_100), (200, worker_200)]) \<le> 1"
proof -
  have c: "contains [(100, sleep_100)] 100"
    by (simp add: contains_def)
  have a: "add_process office_world 0 200 [(100, sleep_100)]
      = Inr [(100, sleep_100), (200, worker_200)]"
    by code_simp
  have d: "distinct (map fst [(100 :: int, sleep_100)])" by simp
  have m: "main office_world two_pid_args 1 =
     ([], Next \<lparr>processes = [(100, sleep_100), (200, worker_200)], to_delete = []\<rparr>)"
    by code_simp
  from add_is_idempotent [where ps = "[(100, sleep_100)]" and p = 100 and w = office_world
      and t = 0 and q = True and t' = 1 and ps' = "[(100, sleep_100)]"] c
  have i1: "add_process office_world 0 100 [(100, sleep_100)] = Inr [(100, sleep_100)]"
    and i2: "discover office_world True 0 [100] [(100, sleep_100)] = ([], Next [(100, sleep_100)])"
    by simp_all
  from add_is_idempotent [where ps = "[(100, sleep_100)]" and p = 200 and w = office_world
      and t = 0 and q = True and t' = 1 and ps' = "[(100, sleep_100), (200, worker_200)]"
      and a = two_pid_args and n = 1 and es = "[]"
      and s = "\<lparr>processes = [(100, sleep_100), (200, worker_200)], to_delete = []\<rparr>"] a d m
  have i3: "add_process office_world 1 200 [(100, sleep_100), (200, worker_200)]
       = Inr [(100, sleep_100), (200, worker_200)]"
    and i4: "length (filter (\<lambda>e. fst e = 200) [(100 :: int, sleep_100), (200, worker_200)]) = 1"
    by simp_all
  have i5: "discover office_world True 1 [100] [(100, sleep_100)] = ([], Next [(100, sleep_100)])"
    by (simp add: contains_def)
  from c a m i1 i3 i4 i5 show ?thesis by simp
qed

text \<open>
  Claim C9.  After resolution and after every tick, the keys of the watch set are distinct
  and the handle stored under a key was created for that key: its identity is the key.
\<close>

theorem watch_set_keys_match_handles:
  assumes "main w a n = (es, Next s)"
  shows "distinct (map fst (processes s))
       \<and> list_all (\<lambda>(k, h). identity h = k) (processes s)"
  using main_ok [OF assms] by (simp add: state_ok_def watch_ok_def)

theorem watch_set_keys_match_handles_witness:
  "main office_world two_pid_args 1 =
     ([], Next \<lparr>processes = [(100, sleep_100), (200, worker_200)], to_delete = []\<rparr>)
   \<and> distinct (map fst [(100 :: int, sleep_100), (200, worker_200)])
   \<and> list_all (\<lambda>(k, h). identity h = k) [(100, sleep_100), (200, worker_200)]"
proof -
  have m: "main office_world two_pid_args 1 =
     ([], Next \<lparr>processes = [(100, sleep_100), (200, worker_200)], to_delete = []\<rparr>)"
    by code_simp
  from watch_set_keys_match_handles [OF m] m show ?thesis by simp
qed

text \<open>
  Claim C10.  \<^verbatim>\<open>--watch-new\<close> alone never turns discovery on.  When no pattern is given,
  discovery is off whatever the flag says and the run is the same with and without the
  flag.  With no PID either, start-up itself exits (status 0, or 1 when a requested module
  does not load).  Otherwise the run goes on only while some of the given PIDs is still
  watched, and it ends in the tick in which all that are left have ended: with status 0,
  unless a \<^verbatim>\<open>send\<close> raises.
\<close>

theorem watch_new_needs_a_pattern:
  assumes "command a = []"
  shows "\<not> watch_new_effective a (command a)
       \<and> main w (a\<lparr>watch_new := True\<rparr>) n = main w (a\<lparr>watch_new := False\<rparr>) n
       \<and> (pid a = [] \<longrightarrow>
            (\<exists>es. startup w a = (es, Exit (if channel_fails w a then 1 else 0))
                  \<and> (\<forall>m. main w a m = (es, Exit (if channel_fails w a then 1 else 0)))))
       \<and> (main w a n = (es, Next s) \<longrightarrow>
            processes s \<noteq> [] \<and> fst ` set (processes s) \<subseteq> set (pid a)
            \<and> (list_all (dead w (Suc n)) (processes s) \<longrightarrow>
                 snd (main w a (Suc n)) = Exit 0
                 \<or> (\<exists>c. snd (main w a (Suc n)) = Uncaught (SendError c))))"
proof -
  have 1: "\<not> watch_new_effective a (command a)"
    using assms by (simp add: watch_new_effective_def)
  have "command (a\<lparr>watch_new := False\<rparr>) = []" using assms by simp
  from main_flag_irrelevant [OF this, of w True n]
  have 2: "main w (a\<lparr>watch_new := True\<rparr>) n = main w (a\<lparr>watch_new := False\<rparr>) n" by simp
  have 3: "\<exists>es. startup w a = (es, Exit (if channel_fails w a then 1 else 0))
      \<and> (\<forall>m. main w a m = (es, Exit (if channel_fails w a then 1 else 0)))" if "pid a = []"
  proof -
    from startup_nothing_given [OF assms that, of w] obtain es where
      "startup w a = (es, Exit (if channel_fails w a then 1 else 0))" ..
    then show ?thesis by (auto simp: main_def)
  qed
  have 4: "processes s \<noteq> [] \<and> fst ` set (processes s) \<subseteq> set (pid a)
      \<and> (list_all (dead w (Suc n)) (processes s) \<longrightarrow>
           snd (main w a (Suc n)) = Exit 0
           \<or> (\<exists>c. snd (main w a (Suc n)) = Uncaught (SendError c)))"
    if m: "main w a n = (es, Next s)"
  proof -
    from main_Next [OF m] obtain e0 c e1 where st: "startup w a = (e0, Next c)"
      and pl: "poll_loop w (quiet a) (comms_of c) (watch_new_of c) (regexs_of c) n 1 (state_of c)
           = (e1, Next s)" by blast
    from startup_no_patterns [OF st assms] have wn: "watch_new_of c = False"
      and ne: "processes (state_of c) \<noteq> []"
      and k: "fst ` set (processes (state_of c)) = set (pid a)" by simp_all
    from poll_loop_no_discovery_Next [OF pl [unfolded wn] ne]
    have a: "processes s \<noteq> []" and b: "set (processes s) \<subseteq> set (processes (state_of c))"
      by simp_all
    from b k have b': "fst ` set (processes s) \<subseteq> set (pid a)" by blast
    from main_ok [OF m] have d: "distinct (map fst (processes s))" and td: "to_delete s = []"
      by (simp_all add: state_ok_def watch_ok_def)
    from main_Suc [OF st pl] wn tick_all_dead [OF d td]
    have "list_all (dead w (Suc n)) (processes s) \<longrightarrow>
           snd (main w a (Suc n)) = Exit 0
           \<or> (\<exists>c. snd (main w a (Suc n)) = Uncaught (SendError c))"
      by simp
    with a b' show ?thesis by simp
  qed
  from 1 2 3 4 show ?thesis by blast
qed

theorem watch_new_needs_a_pattern_witness:
  "command flag_only_args = []
   \<and> main office_world flag_only_args 2
     = ([Send Dbus_notify sleep_100], Next \<lparr>processes = [(200, worker_200)], to_delete = []\<rparr>)
   \<and> list_all (dead office_world 3) [(200, worker_200)]
   \<and> snd (main office_world flag_only_args 3) = Exit 0
   \<and> main office_world (flag_only_args\<lparr>watch_new := True\<rparr>) 3
     = main office_world (flag_only_args\<lparr>watch_new := False\<rparr>) 3
   \<and> pid (flag_only_args\<lparr>pid := []\<rparr>) = []
   \<and> snd (main idle_world (flag_only_args\<lparr>pid := []\<rparr>) 7) = Exit 0"
proof -
  have c: "command flag_only_args = []" by (simp add: flag_only_args_def)
  have c': "command (flag_only_args\<lparr>pid := []\<rparr>) = []" by (simp add: flag_only_args_def)
  have m: "main office_world flag_only_args 2
     = ([Send Dbus_notify sleep_100], Next \<lparr>processes = [(200, worker_200)], to_delete = []\<rparr>)"
    by code_simp
  have d: "list_all (dead office_world 3) [(200, worker_200)]"
    by code_simp
  have x: "snd (main office_world flag_only_args 3) = Exit 0"
    by code_simp
  have nf: "\<not> channel_fails idle_world (flag_only_args\<lparr>pid := []\<rparr>)"
    by (simp add: channel_fails_def idle_world_def flag_only_args_def)
  from watch_new_needs_a_pattern [where a = flag_only_args and w = office_world
      and n = 3 and es = "[]" and s = "\<lparr>processes = [], to_delete = []\<rparr>"] c
  have f: "main office_world (flag_only_args\<lparr>watch_new := True\<rparr>) 3
     = main office_world (flag_only_args\<lparr>watch_new := False\<rparr>) 3" by simp
  from watch_new_needs_a_pattern [where a = "flag_only_args\<lparr>pid := []\<rparr>" and w = idle_world
      and n = 7 and es = "[]" and s = "\<lparr>processes = [], to_delete = []\<rparr>"] c' nf
  have "\<exists>es. \<forall>m. main idle_world (flag_only_args\<lparr>pid := []\<rparr>) m = (es, Exit 0)"
    by auto
  then have i: "snd (main idle_world (flag_only_args\<lparr>pid := []\<rparr>) 7) = Exit 0"
    by auto
  from c m d x f i show ?thesis by simp
qed

end
